theory Spec2Isabelle
  imports Complex_Main "HOL-Library.AList" "HOL-Library.Sublist"
begin

section \<open>Shallow embedding of SierpinskyPeanoCurve.py\<close>

text \<open>
  Python floats are idealised as exact reals: rounding, overflow and the
  difference between a float that underflows to zero and a real that is zero
  are outside the model. A Python list of floats and a one-dimensional numpy
  array are both a \<open>real list\<close>; \<open>np.append\<close> is \<open>@\<close>, \<open>np.flipud\<close> is
  \<open>rev\<close>, unary minus on an array is \<open>map uminus\<close>.

  Every raise of the source is a value \<open>Inl e\<close>. The first six constructors
  are the Python exceptions the script can raise (\<open>PyException\<close> is the bare
  \<open>Exception\<close> of the command-line entry). The last three are named by the
  specification only: no statement of the source raises them, and no
  definition below returns them.
\<close>

datatype error =
    ZeroDivisionError | KeyError | IndexError | ValueError | TypeError | PyException
  | InvalidLineError | InvalidPatternError | InvalidLevelError

subsection \<open>symmetrize\<close>

text \<open>
  The body of the \<open>for x,y in zip(X,Y)\<close> loop, appending to \<open>Xs\<close> and \<open>Ys\<close>.
\<close>

fun symmetrize_loop ::
  "real \<Rightarrow> real \<Rightarrow> real \<Rightarrow> real \<Rightarrow> (real \<times> real) list \<Rightarrow> real list \<Rightarrow> real list
     \<Rightarrow> real list \<times> real list" where
  "symmetrize_loop a b c den [] Xs Ys = (Xs, Ys)"
| "symmetrize_loop a b c den ((x, y) # ps) Xs Ys =
     (let xl = den * (b\<^sup>2 * x - a * b * y - a * c);
          yl = den * (- a * b * x + a\<^sup>2 * y - b * c)
      in symmetrize_loop a b c den ps (Xs @ [2 * xl - x]) (Ys @ [2 * yl - y]))"

text \<open>
  \<open>den = 1.0/(a**2+b**2)\<close> raises ZeroDivisionError when the denominator is
  zero, before the loop is entered.
\<close>

definition symmetrize ::
  "real \<Rightarrow> real \<Rightarrow> real \<Rightarrow> real list \<Rightarrow> real list \<Rightarrow> error + (real list \<times> real list)" where
  "symmetrize a b c X Y =
     (if a\<^sup>2 + b\<^sup>2 = 0 then Inl ZeroDivisionError
      else Inr (symmetrize_loop a b c (1 / (a\<^sup>2 + b\<^sup>2)) (zip X Y) [] []))"

text \<open>
  The specification's reflection of one point, in its own words:
  \<open>proj = p - ((a p.x + b p.y + c)/(a\<^sup>2+b\<^sup>2)) (a, b)\<close> and the result is
  \<open>2 proj - p\<close>.
\<close>

definition spec_proj :: "real \<Rightarrow> real \<Rightarrow> real \<Rightarrow> real \<times> real \<Rightarrow> real \<times> real" where
  "spec_proj a b c p =
     (fst p - (a * fst p + b * snd p + c) / (a\<^sup>2 + b\<^sup>2) * a,
      snd p - (a * fst p + b * snd p + c) / (a\<^sup>2 + b\<^sup>2) * b)"

definition spec_mirror :: "real \<Rightarrow> real \<Rightarrow> real \<Rightarrow> real \<times> real \<Rightarrow> real \<times> real" where
  "spec_mirror a b c p =
     (2 * fst (spec_proj a b c p) - fst p, 2 * snd (spec_proj a b c p) - snd p)"

text \<open>Sequencing of two fallible reflections.\<close>

definition symmetrize_twice ::
  "real \<Rightarrow> real \<Rightarrow> real \<Rightarrow> real list \<Rightarrow> real list \<Rightarrow> error + (real list \<times> real list)" where
  "symmetrize_twice a b c X Y =
     (case symmetrize a b c X Y of
        Inl e \<Rightarrow> Inl e
      | Inr (Xs, Ys) \<Rightarrow> symmetrize a b c Xs Ys)"

subsection \<open>generateSymmetries\<close>

text \<open>
  A pattern family is a Python dict from orientation id to an array. The
  function mutates \<open>DX\<close> and \<open>DY\<close> in place; the model returns both updated.
  \<open>DX[1]\<close> and \<open>DY[1]\<close> raise KeyError when absent; the assignments only
  write the keys 2, 3 and 4, so every later read of key 1 returns what the
  first read returned.
\<close>

type_synonym family = "int \<rightharpoonup> real list"

definition generateSymmetries :: "family \<Rightarrow> family \<Rightarrow> error + (family \<times> family)" where
  "generateSymmetries DX DY =
     (case DX 1 of
        None \<Rightarrow> Inl KeyError
      | Some x1 \<Rightarrow>
          (case DY 1 of
             None \<Rightarrow> Inl KeyError
           | Some y1 \<Rightarrow>
               Inr (DX(2 \<mapsto> rev (map uminus x1), 3 \<mapsto> rev x1, 4 \<mapsto> rev (map uminus x1)),
                    DY(2 \<mapsto> rev y1, 3 \<mapsto> rev (map uminus y1), 4 \<mapsto> rev (map uminus y1)))))"

text \<open>
  The two dicts \<open>generateSymmetries\<close> leaves behind when it is given the
  one-entry dicts \<open>{1: x}\<close> and \<open>{1: y}\<close>.
\<close>

definition orient_X :: "real list \<Rightarrow> family" where
  "orient_X x = [1 \<mapsto> x, 2 \<mapsto> rev (map uminus x), 3 \<mapsto> rev x, 4 \<mapsto> rev (map uminus x)]"

definition orient_Y :: "real list \<Rightarrow> family" where
  "orient_Y y = [1 \<mapsto> y, 2 \<mapsto> rev y, 3 \<mapsto> rev (map uminus y), 4 \<mapsto> rev (map uminus y)]"

subsection \<open>getOffset\<close>

text \<open>
  \<open>int(k)\<close> on a one-character string: the decimal digits convert, every
  other character raises ValueError.
\<close>

definition py_int :: "char \<Rightarrow> error + int" where
  "py_int ch =
     (case map_of [(CHR ''0'', 0), (CHR ''1'', 1), (CHR ''2'', 2), (CHR ''3'', 3),
                   (CHR ''4'', 4), (CHR ''5'', 5), (CHR ''6'', 6), (CHR ''7'', 7),
                   (CHR ''8'', 8), (CHR ''9'', 9)] ch of
        None \<Rightarrow> Inl ValueError
      | Some k \<Rightarrow> Inr k)"

text \<open>The loop \<open>for i,k in enumerate(key)\<close> with the running offsets.\<close>

fun getOffset_loop :: "nat \<Rightarrow> string \<Rightarrow> real \<times> real \<Rightarrow> error + (real \<times> real)" where
  "getOffset_loop i [] (offsetX, offsetY) = Inr (offsetX, offsetY)"
| "getOffset_loop i (ch # key) (offsetX, offsetY) =
     (let scale = 1 / 2 ^ (i + 1) in
      case py_int ch of
        Inl e \<Rightarrow> Inl e
      | Inr k \<Rightarrow>
          getOffset_loop (i + 1) key
            (if k mod 2 = 1 then offsetX + - scale else offsetX + scale,
             if k < 3 then offsetY + scale else offsetY + - scale))"

definition getOffset :: "string \<Rightarrow> error + (real \<times> real)" where
  "getOffset key = getOffset_loop 0 key (0, 0)"

subsection \<open>Pattern\<close>

record Pattern =
  pattern_level :: int
  pattern_X :: family
  pattern_Y :: family
  patternS_X :: family
  patternS_Y :: family
  patternE_X :: family
  patternE_Y :: family

text \<open>
  \<open>Pattern.__init__\<close>, statement by statement. \<open>rootPattern_X[0:-1]\<close> is
  \<open>butlast\<close> (the empty list for an empty list). The constructor holds no
  check of its arguments.
\<close>

definition Pattern_init :: "real list \<Rightarrow> real list \<Rightarrow> error + Pattern" where
  "Pattern_init rootPattern_X rootPattern_Y =
     (case symmetrize (- 1) (- 1) 0 rootPattern_X rootPattern_Y of
        Inl e \<Rightarrow> Inl e
      | Inr (Xs, Ys) \<Rightarrow>
     (case generateSymmetries [1 \<mapsto> rootPattern_X @ rev Xs] [1 \<mapsto> rootPattern_Y @ rev Ys] of
        Inl e \<Rightarrow> Inl e
      | Inr (pX, pY) \<Rightarrow>
     (case symmetrize 1 (- 1) 1 (butlast rootPattern_X) (butlast rootPattern_Y) of
        Inl e \<Rightarrow> Inl e
      | Inr (Xs', Ys') \<Rightarrow>
     (case generateSymmetries [1 \<mapsto> butlast rootPattern_X @ rev Xs']
                              [1 \<mapsto> butlast rootPattern_Y @ rev Ys'] of
        Inl e \<Rightarrow> Inl e
      | Inr (sX, sY) \<Rightarrow>
     (case sX 1 of None \<Rightarrow> Inl KeyError | Some sX1 \<Rightarrow>
     (case sY 1 of None \<Rightarrow> Inl KeyError | Some sY1 \<Rightarrow>
     (case symmetrize 1 1 0 sX1 sY1 of
        Inl e \<Rightarrow> Inl e
      | Inr (patternE_X1, patternE_Y1) \<Rightarrow>
     (case generateSymmetries [1 \<mapsto> patternE_X1] [1 \<mapsto> patternE_Y1] of
        Inl e \<Rightarrow> Inl e
      | Inr (eX, eY) \<Rightarrow>
          Inr \<lparr>pattern_level = 0,
               pattern_X = pX, pattern_Y = pY,
               patternS_X = sX, patternS_Y = sY,
               patternE_X = eX, patternE_Y = eY\<rparr>))))))))"

subsection \<open>Steinhaus\<close>

text \<open>
  The value stored for a node is what \<open>get\<close> returns: a pair whose first
  component is the list of X arrays and whose second is the list of Y arrays
  (one array each for a plain node, two each for a connector junction). A
  level is a dict from address to that value, modelled as an association list
  with \<open>AList.update\<close> as item assignment; \<open>self.lines\<close> is the dict of levels.
\<close>

type_synonym geometry = "real list list \<times> real list list"

type_synonym level_dict = "(string \<times> geometry) list"

record Steinhaus =
  level :: int
  pattern :: Pattern
  lines :: "int \<rightharpoonup> level_dict"

text \<open>\<open>2**n\<close> on a Python int: an int for \<open>n \<ge> 0\<close>, the float \<open>2^n\<close> otherwise.\<close>

definition pow2 :: "int \<Rightarrow> real" where
  "pow2 n = (if 0 \<le> n then 2 ^ nat n else 1 / 2 ^ nat (- n))"

text \<open>\<open>scale * array + offset\<close> on a numpy array.\<close>

definition affine :: "real \<Rightarrow> real \<Rightarrow> real list \<Rightarrow> real list" where
  "affine scale off arr = map (\<lambda>v. scale * v + off) arr"

definition get :: "Pattern \<Rightarrow> int \<Rightarrow> int \<Rightarrow> int \<Rightarrow> real \<times> real \<Rightarrow> int \<Rightarrow> error + geometry" where
  "get p idn idParent lvl offset nParent =
     (let scale = 1 / pow2 (lvl - 1) in
      if idn = 5 - idParent \<or> (nParent = 2 \<and> idParent = idn) then
        (case patternS_X p idn of None \<Rightarrow> Inl KeyError | Some sx \<Rightarrow>
        (case patternE_X p idn of None \<Rightarrow> Inl KeyError | Some ex \<Rightarrow>
        (case patternS_Y p idn of None \<Rightarrow> Inl KeyError | Some sy \<Rightarrow>
        (case patternE_Y p idn of None \<Rightarrow> Inl KeyError | Some ey \<Rightarrow>
           Inr ([affine scale (fst offset) sx, affine scale (fst offset) ex],
                [affine scale (snd offset) sy, affine scale (snd offset) ey])))))
      else
        (case pattern_X p idn of None \<Rightarrow> Inl KeyError | Some px \<Rightarrow>
        (case pattern_Y p idn of None \<Rightarrow> Inl KeyError | Some py \<Rightarrow>
           Inr ([affine scale (fst offset) px], [affine scale (snd offset) py]))))"

text \<open>
  \<open>key[-1]\<close> and \<open>key[-2]\<close> raise IndexError on a key that is too short;
  the arguments are evaluated left to right.
\<close>

definition getFromKey :: "Pattern \<Rightarrow> string \<Rightarrow> int \<Rightarrow> error + geometry" where
  "getFromKey p key nParent =
     (if key = [] then Inl IndexError
      else (case py_int (last key) of
        Inl e \<Rightarrow> Inl e
      | Inr idn \<Rightarrow>
          (if length key < 2 then Inl IndexError
           else (case py_int (key ! (length key - 2)) of
             Inl e \<Rightarrow> Inl e
           | Inr idParent \<Rightarrow>
               (case getOffset (butlast key) of
                  Inl e \<Rightarrow> Inl e
                | Inr offset \<Rightarrow> get p idn idParent (int (length key)) offset nParent)))))"

text \<open>\<open>str(k)\<close> on a Python int.\<close>

definition digit_char :: "nat \<Rightarrow> char" where
  "digit_char n = ''0123456789'' ! n"

fun str_nat :: "nat \<Rightarrow> string" where
  "str_nat n = (if n < 10 then [digit_char n] else str_nat (n div 10) @ [digit_char (n mod 10)])"

declare str_nat.simps [simp del]

definition str :: "int \<Rightarrow> string" where
  "str k = (if k < 0 then CHR ''-'' # str_nat (nat (- k)) else str_nat (nat k))"

text \<open>
  A dict comprehension \<open>{kf(i): vf(i) for i in is}\<close>: the items are stored one
  after the other, and the first raise ends the comprehension.
\<close>

fun dict_comprehension ::
  "('i \<Rightarrow> 'k) \<Rightarrow> ('i \<Rightarrow> error + 'v) \<Rightarrow> 'i list \<Rightarrow> ('k \<times> 'v) list \<Rightarrow> error + ('k \<times> 'v) list" where
  "dict_comprehension kf vf [] acc = Inr acc"
| "dict_comprehension kf vf (i # is) acc =
     (case vf i of
        Inl e \<Rightarrow> Inl e
      | Inr v \<Rightarrow> dict_comprehension kf vf is (AList.update (kf i) v acc))"

text \<open>\<open>d.update(other)\<close>.\<close>

definition dict_update :: "('k \<times> 'v) list \<Rightarrow> ('k \<times> 'v) list \<Rightarrow> ('k \<times> 'v) list" where
  "dict_update d other = fold (\<lambda>(k, v). AList.update k v) other d"

text \<open>
  The loop of \<open>generateLevel\<close> over the items of the previous level, with the
  level under construction as accumulator; \<open>len(lines[0])\<close> is the number
  of X arrays of the parent.
\<close>

fun generateLevel_loop :: "Pattern \<Rightarrow> level_dict \<Rightarrow> level_dict \<Rightarrow> error + level_dict" where
  "generateLevel_loop p [] acc = Inr acc"
| "generateLevel_loop p ((key, lines0) # items) acc =
     (case dict_comprehension (\<lambda>k. key @ str k)
             (\<lambda>k. getFromKey p (key @ str k) (int (length (fst lines0)))) [1..4] [] of
        Inl e \<Rightarrow> Inl e
      | Inr children \<Rightarrow> generateLevel_loop p items (dict_update acc children))"

definition generateLevel :: "Steinhaus \<Rightarrow> int \<Rightarrow> error + Steinhaus" where
  "generateLevel s lvl =
     (let ls = (lines s)(lvl \<mapsto> []) in
      case ls (lvl - 1) of
        None \<Rightarrow> Inl KeyError
      | Some prev \<Rightarrow>
          (case generateLevel_loop (pattern s) prev [] of
             Inl e \<Rightarrow> Inl e
           | Inr d \<Rightarrow> Inr (s\<lparr>lines := ls(lvl \<mapsto> d)\<rparr>)))"

text \<open>The loop \<open>for n in range(2,self.level+1)\<close>.\<close>

fun generateLevels :: "Steinhaus \<Rightarrow> int list \<Rightarrow> error + Steinhaus" where
  "generateLevels s [] = Inr s"
| "generateLevels s (n # ns) =
     (case generateLevel s n of
        Inl e \<Rightarrow> Inl e
      | Inr s' \<Rightarrow> generateLevels s' ns)"

definition Steinhaus_init :: "int \<Rightarrow> real list \<Rightarrow> real list \<Rightarrow> error + Steinhaus" where
  "Steinhaus_init lvl rootPattern_X rootPattern_Y =
     (case Pattern_init rootPattern_X rootPattern_Y of
        Inl e \<Rightarrow> Inl e
      | Inr p \<Rightarrow>
          (case dict_comprehension str (\<lambda>k. get p k 0 1 (0, 0) 1) [1..4] [] of
             Inl e \<Rightarrow> Inl e
           | Inr d \<Rightarrow>
               generateLevels \<lparr>level = lvl, pattern = p, lines = [1 \<mapsto> d]\<rparr> [2..lvl]))"

subsection \<open>Command-line entry\<close>

text \<open>
  The \<open>__main__\<close> block up to the construction of the curve (the plots that
  \<open>main\<close> makes afterwards are the renderer's). An option that was not given
  is \<open>None\<close>, and \<open>len(None)\<close> raises TypeError.
\<close>

definition default_X :: "real list" where
  "default_X = [- 0.5, - 0.5, - 0.75]"

definition default_Y :: "real list" where
  "default_Y = [0, 0.25, 0.5]"

definition absent :: "real list option \<Rightarrow> bool" where
  "absent a = (case a of None \<Rightarrow> True | Some xs \<Rightarrow> xs = [])"

definition cli_main :: "real list option \<Rightarrow> real list option \<Rightarrow> int \<Rightarrow> error + Steinhaus" where
  "cli_main px py nLevel =
     (let (TopLeftPattern_X, TopLeftPattern_Y) =
            (if absent px \<and> absent py then (Some default_X, Some default_Y) else (px, py))
      in case TopLeftPattern_X of
           None \<Rightarrow> Inl TypeError
         | Some X \<Rightarrow>
             (case TopLeftPattern_Y of
                None \<Rightarrow> Inl TypeError
              | Some Y \<Rightarrow>
                  if length X \<noteq> length Y then Inl PyException
                  else Steinhaus_init nLevel X Y))"

subsection \<open>The specification's reading of an address\<close>

text \<open>
  The value of a digit of an address, the offset as the specification sums it
  (the digit at zero-based position \<open>i\<close> contributes \<open>1/2^(i+1)\<close> with a sign),
  and the connector flag of a node: 1 at level 1, and below it 2 exactly when
  the disambiguation rule holds for the node's digit, its parent's digit and
  its parent's flag.
\<close>

definition digit :: "char \<Rightarrow> int" where
  "digit ch = (case py_int ch of Inl e \<Rightarrow> 0 | Inr k \<Rightarrow> k)"

definition spec_offset_X :: "string \<Rightarrow> real" where
  "spec_offset_X pre =
     sum_list (map (\<lambda>i. if odd (digit (pre ! i)) then - (1 / 2 ^ (i + 1)) else 1 / 2 ^ (i + 1))
                 [0..<length pre])"

definition spec_offset_Y :: "string \<Rightarrow> real" where
  "spec_offset_Y pre =
     sum_list (map (\<lambda>i. if digit (pre ! i) < 3 then 1 / 2 ^ (i + 1) else - (1 / 2 ^ (i + 1)))
                 [0..<length pre])"

text \<open>The flag, by recursion on the address read from its last digit.\<close>

fun flag_rev :: "string \<Rightarrow> int" where
  "flag_rev [] = 1"
| "flag_rev [k] = 1"
| "flag_rev (k # j # r) =
     (if digit k = 5 - digit j \<or> (flag_rev (j # r) = 2 \<and> digit k = digit j) then 2 else 1)"

definition flag :: "string \<Rightarrow> int" where
  "flag key = flag_rev (rev key)"

text \<open>
  The specification's geometry of a node: each coordinate of the pattern of
  orientation \<open>k\<close> multiplied by the scale and translated by the offset.
\<close>

definition plain_geometry :: "Pattern \<Rightarrow> int \<Rightarrow> real \<Rightarrow> real \<times> real \<Rightarrow> geometry" where
  "plain_geometry p k scale off =
     ([map (\<lambda>v. scale * v + fst off) (the (pattern_X p k))],
      [map (\<lambda>v. scale * v + snd off) (the (pattern_Y p k))])"

definition connector_geometry :: "Pattern \<Rightarrow> int \<Rightarrow> real \<Rightarrow> real \<times> real \<Rightarrow> geometry" where
  "connector_geometry p k scale off =
     ([map (\<lambda>v. scale * v + fst off) (the (patternS_X p k)),
       map (\<lambda>v. scale * v + fst off) (the (patternE_X p k))],
      [map (\<lambda>v. scale * v + snd off) (the (patternS_Y p k)),
       map (\<lambda>v. scale * v + snd off) (the (patternE_Y p k))])"

definition resolved :: "Pattern \<Rightarrow> string \<Rightarrow> geometry" where
  "resolved p key =
     (let k = digit (last key);
          scale = 1 / 2 ^ (length key - 1);
          off = (spec_offset_X (butlast key), spec_offset_Y (butlast key))
      in if flag key = 2 then connector_geometry p k scale off
         else plain_geometry p k scale off)"

text \<open>The addresses of a level of a constructed curve (none when there is no such level).\<close>

definition addresses :: "error + Steinhaus \<Rightarrow> int \<Rightarrow> string list" where
  "addresses r n =
     (case r of
        Inl e \<Rightarrow> []
      | Inr s \<Rightarrow> (case lines s n of None \<Rightarrow> [] | Some d \<Rightarrow> map fst d))"

subsection \<open>Invariants of the generated levels\<close>

text \<open>The addresses of length \<open>n\<close>: the strings of \<open>n\<close> digits 1-4.\<close>

definition addrs :: "nat \<Rightarrow> string set" where
  "addrs n = {key. set key \<subseteq> set ''1234'' \<and> length key = n}"

text \<open>A pattern library whose six dicts hold exactly the orientations 1-4.\<close>

definition wf_pattern :: "Pattern \<Rightarrow> bool" where
  "wf_pattern p = (dom (pattern_X p) = {1, 2, 3, 4} \<and> dom (pattern_Y p) = {1, 2, 3, 4}
     \<and> dom (patternS_X p) = {1, 2, 3, 4} \<and> dom (patternS_Y p) = {1, 2, 3, 4}
     \<and> dom (patternE_X p) = {1, 2, 3, 4} \<and> dom (patternE_Y p) = {1, 2, 3, 4})"

text \<open>
  The invariant of level \<open>n\<close>: its keys are distinct, they are the addresses of
  length \<open>n\<close>, and each is stored with its resolved geometry.
\<close>

definition level_inv :: "Pattern \<Rightarrow> nat \<Rightarrow> level_dict \<Rightarrow> bool" where
  "level_inv p n d =
     (distinct (map fst d)
      \<and> map_of d = (\<lambda>k. if k \<in> addrs n then Some (resolved p k) else None))"

text \<open>
  The invariant of a curve whose levels 1 to \<open>m\<close> have been generated.
\<close>

definition curve_inv :: "Pattern \<Rightarrow> int \<Rightarrow> nat \<Rightarrow> Steinhaus \<Rightarrow> bool" where
  "curve_inv p lvl m s =
     (level s = lvl \<and> pattern s = p \<and> dom (lines s) = {1..int m}
      \<and> (\<forall>n. 1 \<le> n \<and> n \<le> m \<longrightarrow> (\<exists>d. lines s (int n) = Some d \<and> level_inv p n d)))"

section \<open>Properties\<close>

subsection \<open>symmetrize\<close>

lemma symmetrize_loop_map:
  "symmetrize_loop a b c den ps Xs Ys =
     (Xs @ map (\<lambda>(x, y). 2 * (den * (b\<^sup>2 * x - a * b * y - a * c)) - x) ps,
      Ys @ map (\<lambda>(x, y). 2 * (den * (- a * b * x + a\<^sup>2 * y - b * c)) - y) ps)"
  by (induction ps arbitrary: Xs Ys) (auto simp: Let_def)

lemma mirror_x:
  assumes "a\<^sup>2 + b\<^sup>2 \<noteq> (0::real)"
  shows "2 * (1 / (a\<^sup>2 + b\<^sup>2) * (b\<^sup>2 * x - a * b * y - a * c)) - x
           = fst (spec_mirror a b c (x, y))"
  using assms unfolding spec_mirror_def spec_proj_def
  by (simp add: field_simps power2_eq_square)

lemma mirror_y:
  assumes "a\<^sup>2 + b\<^sup>2 \<noteq> (0::real)"
  shows "2 * (1 / (a\<^sup>2 + b\<^sup>2) * (- a * b * x + a\<^sup>2 * y - b * c)) - y
           = snd (spec_mirror a b c (x, y))"
  using assms unfolding spec_mirror_def spec_proj_def
  by (simp add: field_simps power2_eq_square)

lemma symmetrize_mirror:
  assumes "a\<^sup>2 + b\<^sup>2 \<noteq> 0"
  shows "symmetrize a b c X Y =
           Inr (map (\<lambda>p. fst (spec_mirror a b c p)) (zip X Y),
                map (\<lambda>p. snd (spec_mirror a b c p)) (zip X Y))"
proof -
  have fx: "(\<lambda>(x, y). 2 * (1 / (a\<^sup>2 + b\<^sup>2) * (b\<^sup>2 * x - a * b * y - a * c)) - x)
              = (\<lambda>p. fst (spec_mirror a b c p))"
    using mirror_x [OF assms] by (auto simp only: fun_eq_iff split_def prod.collapse)
  have fy: "(\<lambda>(x, y). 2 * (1 / (a\<^sup>2 + b\<^sup>2) * (- a * b * x + a\<^sup>2 * y - b * c)) - y)
              = (\<lambda>p. snd (spec_mirror a b c p))"
    using mirror_y [OF assms] by (auto simp only: fun_eq_iff split_def prod.collapse)
  have "symmetrize a b c X Y =
          Inr (symmetrize_loop a b c (1 / (a\<^sup>2 + b\<^sup>2)) (zip X Y) [] [])"
    using assms by (simp only: symmetrize_def if_False)
  also have "symmetrize_loop a b c (1 / (a\<^sup>2 + b\<^sup>2)) (zip X Y) [] [] =
          (map (\<lambda>p. fst (spec_mirror a b c p)) (zip X Y),
           map (\<lambda>p. snd (spec_mirror a b c p)) (zip X Y))"
    by (simp only: symmetrize_loop_map fx fy append_Nil)
  finally show ?thesis .
qed

lemma spec_mirror_alt:
  "spec_mirror a b c (x, y) =
     (x - 2 * ((a * x + b * y + c) / (a\<^sup>2 + b\<^sup>2)) * a,
      y - 2 * ((a * x + b * y + c) / (a\<^sup>2 + b\<^sup>2)) * b)"
  unfolding spec_mirror_def spec_proj_def by (simp add: algebra_simps)

lemma spec_mirror_involution:
  assumes "a\<^sup>2 + b\<^sup>2 \<noteq> 0"
  shows "spec_mirror a b c (spec_mirror a b c p) = p"
proof -
  obtain x y where p: "p = (x, y)" by (cases p)
  define D where "D = a\<^sup>2 + b\<^sup>2"
  define t where "t = (a * x + b * y + c) / D"
  have D: "D \<noteq> 0" using assms by (simp add: D_def)
  have "a * (x - 2 * t * a) + b * (y - 2 * t * b) + c = (a * x + b * y + c) - 2 * t * D"
    by (simp add: D_def algebra_simps power2_eq_square)
  also have "\<dots> = - (t * D)"
    using D by (simp add: t_def)
  finally have "(a * (x - 2 * t * a) + b * (y - 2 * t * b) + c) / D = - t"
    using D by simp
  then show ?thesis
    unfolding p spec_mirror_alt [of a b c x y] D_def [symmetric] t_def [symmetric]
    unfolding spec_mirror_alt D_def [symmetric]
    by simp
qed

text \<open>
  Claim C6. For a line with \<open>a\<^sup>2 + b\<^sup>2 \<noteq> 0\<close>, \<open>symmetrize\<close> returns, for the points
  \<open>zip X Y\<close> in their order, the coordinates of \<open>2 proj - p\<close> with the
  specification's \<open>proj\<close>; that image is the orthogonal mirror image of \<open>p\<close>: the
  midpoint of \<open>p\<close> and its image lies on the line, and the segment between them
  is parallel to the normal \<open>(a, b)\<close>. The function returns new lists and
  changes nothing else (the model has no state to change).
\<close>

theorem symmetrize_reflects:
  assumes "a\<^sup>2 + b\<^sup>2 \<noteq> 0"
  shows "symmetrize a b c X Y =
           Inr (map (\<lambda>p. fst (spec_mirror a b c p)) (zip X Y),
                map (\<lambda>p. snd (spec_mirror a b c p)) (zip X Y))
         \<and> a * ((x + fst (spec_mirror a b c (x, y))) / 2)
             + b * ((y + snd (spec_mirror a b c (x, y))) / 2) + c = 0
         \<and> b * (fst (spec_mirror a b c (x, y)) - x)
             = a * (snd (spec_mirror a b c (x, y)) - y)"
proof -
  define D where "D = a\<^sup>2 + b\<^sup>2"
  define t where "t = (a * x + b * y + c) / D"
  have D: "D \<noteq> 0" using assms by (simp add: D_def)
  have m: "spec_mirror a b c (x, y) = (x - 2 * t * a, y - 2 * t * b)"
    by (simp add: spec_mirror_alt D_def t_def)
  have tD: "t * D = a * x + b * y + c"
    using D by (simp add: t_def)
  have hx: "(x + (x - 2 * t * a)) / 2 = x - t * a" by simp
  have hy: "(y + (y - 2 * t * b)) / 2 = y - t * b" by simp
  have "a * ((x + (x - 2 * t * a)) / 2) + b * ((y + (y - 2 * t * b)) / 2) + c
          = (a * x + b * y + c) - t * D"
    unfolding hx hy by (simp add: D_def algebra_simps power2_eq_square)
  then have mid: "a * ((x + (x - 2 * t * a)) / 2) + b * ((y + (y - 2 * t * b)) / 2) + c = 0"
    using tD by simp
  have par: "b * ((x - 2 * t * a) - x) = a * ((y - 2 * t * b) - y)"
    by (simp add: algebra_simps)
  show ?thesis
    using symmetrize_mirror [OF assms, of c X Y] mid par by (simp only: m fst_conv snd_conv)
qed

theorem symmetrize_reflects_witness:
  "symmetrize 1 (- 1) 1 [0, 2] [0, 5] = Inr ([- 1, 4], [1, 3])"
proof -
  have h: "(1::real)\<^sup>2 + (- 1)\<^sup>2 \<noteq> 0" by simp
  show ?thesis
    using symmetrize_reflects [OF h, of 1 "[0, 2]" "[0, 5]" 0 0]
    by (simp add: spec_mirror_def spec_proj_def)
qed

text \<open>
  Claim C8. Over exact arithmetic, reflecting a point sequence twice across
  the same line with \<open>a\<^sup>2 + b\<^sup>2 \<noteq> 0\<close> returns the sequence.
\<close>

theorem symmetrize_involution:
  assumes "a\<^sup>2 + b\<^sup>2 \<noteq> 0"
  shows "symmetrize_twice a b c (map fst ps) (map snd ps) = Inr (map fst ps, map snd ps)"
proof -
  have z: "zip (map fst ps) (map snd ps) = ps"
    by (simp add: zip_map_fst_snd)
  have z': "zip (map (\<lambda>p. fst (spec_mirror a b c p)) ps) (map (\<lambda>p. snd (spec_mirror a b c p)) ps)
              = map (spec_mirror a b c) ps"
    by (induction ps) simp_all
  show ?thesis
    unfolding symmetrize_twice_def
    by (simp add: symmetrize_mirror [OF assms] z z' o_def spec_mirror_involution [OF assms])
qed

theorem symmetrize_involution_witness:
  "symmetrize_twice 1 (- 1) 1 [0, 2] [0, 5] = Inr ([0, 2], [0, 5])"
proof -
  have h: "(1::real)\<^sup>2 + (- 1)\<^sup>2 \<noteq> 0" by simp
  show ?thesis
    using symmetrize_involution [OF h, of 1 "[(0, 0), (2, 5)]"] by simp
qed

text \<open>
  On the degenerate line \<open>0 x + 0 y + 0 = 0\<close> and no points, the result is not
  InvalidLineError.
\<close>

theorem symmetrize_degenerate_counterexample:
  "symmetrize 0 0 0 [] [] \<noteq> Inl InvalidLineError"
  by (simp add: symmetrize_def)

text \<open>
  Claim C9, as the code has it. For a degenerate line, \<open>symmetrize\<close> fails for
  every pair of coordinate sequences, the empty ones included; the exception
  is Python's ZeroDivisionError of \<open>1.0/(a**2+b**2)\<close>, not InvalidLineError.
\<close>

theorem symmetrize_degenerate:
  assumes "a\<^sup>2 + b\<^sup>2 = 0"
  shows "symmetrize a b c X Y = Inl ZeroDivisionError"
  using assms by (simp add: symmetrize_def)

theorem symmetrize_degenerate_witness:
  "symmetrize 0 0 3 [1, 2] [4, 5] = Inl ZeroDivisionError \<and> symmetrize 0 0 3 [] [] = Inl ZeroDivisionError"
proof -
  have h: "(0::real)\<^sup>2 + 0\<^sup>2 = 0" by simp
  show ?thesis
    using symmetrize_degenerate [OF h, of 3 "[1, 2]" "[4, 5]"]
          symmetrize_degenerate [OF h, of 3 "[]" "[]"] by simp
qed


subsection \<open>generateSymmetries and Pattern\<close>

lemma generateSymmetries_at:
  assumes "DX 1 = Some X" "DY 1 = Some Y"
  shows "generateSymmetries DX DY =
           Inr (DX(2 \<mapsto> rev (map uminus X), 3 \<mapsto> rev X, 4 \<mapsto> rev (map uminus X)),
                DY(2 \<mapsto> rev Y, 3 \<mapsto> rev (map uminus Y), 4 \<mapsto> rev (map uminus Y)))"
  using assms by (simp add: generateSymmetries_def)

lemma zip_map_fst_map_snd:
  "zip (map f (map fst ps)) (map g (map snd ps)) = map (\<lambda>p. (f (fst p), g (snd p))) ps"
  by (induction ps) simp_all

lemma zip_rev_map:
  "zip (rev (map f (map fst ps))) (rev (map g (map snd ps))) = rev (map (\<lambda>p. (f (fst p), g (snd p))) ps)"
proof -
  have "zip (rev (map f (map fst ps))) (rev (map g (map snd ps)))
          = rev (zip (map f (map fst ps)) (map g (map snd ps)))"
    by (rule zip_rev) simp
  then show ?thesis by (simp only: zip_map_fst_map_snd)
qed

text \<open>
  Claim C7. On a seed stored under orientation 1, \<open>generateSymmetries\<close> leaves
  orientation 1 as the seed, stores under 2 the reversed seed with X negated,
  under 3 the reversed seed with Y negated and under 4 the reversed seed with
  both negated; each has as many points as the seed.
\<close>

theorem generateSymmetries_orientations:
  "\<exists>DX' DY'. generateSymmetries (DX(1 \<mapsto> map fst seed)) (DY(1 \<mapsto> map snd seed)) = Inr (DX', DY')
           \<and> DX' 1 = Some (map fst seed) \<and> DY' 1 = Some (map snd seed)
           \<and> DX' 2 = Some (rev (map uminus (map fst seed))) \<and> DY' 2 = Some (rev (map snd seed))
           \<and> DX' 3 = Some (rev (map fst seed)) \<and> DY' 3 = Some (rev (map uminus (map snd seed)))
           \<and> DX' 4 = Some (rev (map uminus (map fst seed)))
           \<and> DY' 4 = Some (rev (map uminus (map snd seed)))
           \<and> zip (the (DX' 1)) (the (DY' 1)) = seed
           \<and> zip (the (DX' 2)) (the (DY' 2)) = rev (map (\<lambda>p. (- fst p, snd p)) seed)
           \<and> zip (the (DX' 3)) (the (DY' 3)) = rev (map (\<lambda>p. (fst p, - snd p)) seed)
           \<and> zip (the (DX' 4)) (the (DY' 4)) = rev (map (\<lambda>p. (- fst p, - snd p)) seed)
           \<and> length (the (DX' 2)) = length seed \<and> length (the (DY' 2)) = length seed
           \<and> length (the (DX' 3)) = length seed \<and> length (the (DY' 3)) = length seed
           \<and> length (the (DX' 4)) = length seed \<and> length (the (DY' 4)) = length seed"
proof -
  have z2: "zip (rev (map uminus (map fst seed))) (rev (map snd seed))
              = rev (map (\<lambda>p. (- fst p, snd p)) seed)"
    using zip_rev_map [of uminus seed "\<lambda>y. y"] by simp
  have z3: "zip (rev (map fst seed)) (rev (map uminus (map snd seed)))
              = rev (map (\<lambda>p. (fst p, - snd p)) seed)"
    using zip_rev_map [of "\<lambda>x. x" seed uminus] by simp
  have z4: "zip (rev (map uminus (map fst seed))) (rev (map uminus (map snd seed)))
              = rev (map (\<lambda>p. (- fst p, - snd p)) seed)"
    using zip_rev_map [of uminus seed uminus] by simp
  have g: "generateSymmetries (DX(1 \<mapsto> map fst seed)) (DY(1 \<mapsto> map snd seed)) =
      Inr (DX(1 \<mapsto> map fst seed, 2 \<mapsto> rev (map uminus (map fst seed)), 3 \<mapsto> rev (map fst seed),
              4 \<mapsto> rev (map uminus (map fst seed))),
           DY(1 \<mapsto> map snd seed, 2 \<mapsto> rev (map snd seed), 3 \<mapsto> rev (map uminus (map snd seed)),
              4 \<mapsto> rev (map uminus (map snd seed))))"
    by (rule generateSymmetries_at) simp_all
  show ?thesis
    unfolding g using z2 z3 z4 by (simp add: zip_map_fst_snd)
qed

theorem generateSymmetries_orientations_witness:
  "generateSymmetries [1 \<mapsto> [1, 2, 3]] [1 \<mapsto> [4, 5, 6]] =
     Inr ([1 \<mapsto> [1, 2, 3], 2 \<mapsto> [- 3, - 2, - 1], 3 \<mapsto> [3, 2, 1], 4 \<mapsto> [- 3, - 2, - 1]],
          [1 \<mapsto> [4, 5, 6], 2 \<mapsto> [6, 5, 4], 3 \<mapsto> [- 6, - 5, - 4], 4 \<mapsto> [- 6, - 5, - 4]])"
  using generateSymmetries_orientations [of Map.empty "[(1, 4), (2, 5), (3, 6)]" Map.empty]
  by (simp add: generateSymmetries_def)


lemma generateSymmetries_single:
  "generateSymmetries [1 \<mapsto> x] [1 \<mapsto> y] = Inr (orient_X x, orient_Y y)"
  by (simp add: generateSymmetries_def orient_X_def orient_Y_def)

lemma symmetrize_length:
  assumes "symmetrize a b c X Y = Inr (Xs, Ys)"
  shows "length Xs = min (length X) (length Y) \<and> length Ys = min (length X) (length Y)"
  using assms by (auto simp: symmetrize_def symmetrize_loop_map split: if_splits)

lemma symmetrize_Inr:
  assumes "a\<^sup>2 + b\<^sup>2 \<noteq> 0"
  obtains Xs Ys where "symmetrize a b c X Y = Inr (Xs, Ys)"
  by (rule that [OF symmetrize_mirror [OF assms]])

lemma Pattern_init_cases:
  obtains p plX plY stX stY enX enY where
    "Pattern_init X Y = Inr p"
    "pattern_X p = orient_X plX" "pattern_Y p = orient_Y plY"
    "patternS_X p = orient_X stX" "patternS_Y p = orient_Y stY"
    "patternE_X p = orient_X enX" "patternE_Y p = orient_Y enY"
    "length plX = length X + min (length X) (length Y)"
    "length plY = length Y + min (length X) (length Y)"
    "length stX = (length X - 1) + min (length X - 1) (length Y - 1)"
    "length stY = (length Y - 1) + min (length X - 1) (length Y - 1)"
    "length enX = min (length stX) (length stY)"
    "length enY = min (length stX) (length stY)"
proof -
  obtain Xs Ys where s1: "symmetrize (- 1) (- 1) 0 X Y = Inr (Xs, Ys)"
    by (rule symmetrize_Inr [of "- 1" "- 1"]) simp_all
  obtain Xs' Ys' where s2: "symmetrize 1 (- 1) 1 (butlast X) (butlast Y) = Inr (Xs', Ys')"
    by (rule symmetrize_Inr [of 1 "- 1"]) simp_all
  obtain enX enY where s3:
    "symmetrize 1 1 0 (butlast X @ rev Xs') (butlast Y @ rev Ys') = Inr (enX, enY)"
    by (rule symmetrize_Inr [of 1 1]) simp_all
  have p: "Pattern_init X Y =
      Inr \<lparr>pattern_level = 0,
           pattern_X = orient_X (X @ rev Xs), pattern_Y = orient_Y (Y @ rev Ys),
           patternS_X = orient_X (butlast X @ rev Xs'), patternS_Y = orient_Y (butlast Y @ rev Ys'),
           patternE_X = orient_X enX, patternE_Y = orient_Y enY\<rparr>"
    unfolding Pattern_init_def
    by (simp add: s1 s2 generateSymmetries_single orient_X_def [of "butlast X @ rev Xs'"]
        orient_Y_def [of "butlast Y @ rev Ys'"] s3)
  have l1: "length Xs = min (length X) (length Y)" "length Ys = min (length X) (length Y)"
    using symmetrize_length [OF s1] by simp_all
  have l2: "length Xs' = min (length X - 1) (length Y - 1)"
    "length Ys' = min (length X - 1) (length Y - 1)"
    using symmetrize_length [OF s2] by simp_all
  have l3: "length enX = min (length (butlast X @ rev Xs')) (length (butlast Y @ rev Ys'))"
    "length enY = min (length (butlast X @ rev Xs')) (length (butlast Y @ rev Ys'))"
    using symmetrize_length [OF s3] by simp_all
  show ?thesis
  proof (rule that [OF p])
    show "length (X @ rev Xs) = length X + min (length X) (length Y)"
      by (simp add: l1)
    show "length (Y @ rev Ys) = length Y + min (length X) (length Y)"
      by (simp add: l1)
    show "length (butlast X @ rev Xs') = (length X - 1) + min (length X - 1) (length Y - 1)"
      by (simp add: l2)
    show "length (butlast Y @ rev Ys') = (length Y - 1) + min (length X - 1) (length Y - 1)"
      by (simp add: l2)
    show "length enX = min (length (butlast X @ rev Xs')) (length (butlast Y @ rev Ys'))"
      by (rule l3)
    show "length enY = min (length (butlast X @ rev Xs')) (length (butlast Y @ rev Ys'))"
      by (rule l3)
  qed simp_all
qed


lemma orient_X_dom:
  assumes "k \<in> {1, 2, 3, 4}"
  obtains v where "orient_X x k = Some v" "length v = length x"
  using assms by (auto simp: orient_X_def)

lemma orient_Y_dom:
  assumes "k \<in> {1, 2, 3, 4}"
  obtains v where "orient_Y y k = Some v" "length v = length y"
  using assms by (auto simp: orient_Y_def)

text \<open>
  Claim C10. For a root pattern of \<open>n \<ge> 3\<close> points with X and Y of equal
  length, every orientation 1-4 of the pattern library has a plain pattern of
  \<open>2n\<close> points and connector-start and connector-end patterns of \<open>2(n-1)\<close>
  points, with X and Y of the same length (so each polyline has at least 2
  points).
\<close>

theorem Pattern_point_counts:
  assumes "3 \<le> length X" and "length Y = length X" and "k \<in> {1, 2, 3, 4}"
  shows "\<exists>p px py sx sy ex ey. Pattern_init X Y = Inr p
           \<and> pattern_X p k = Some px \<and> pattern_Y p k = Some py
           \<and> patternS_X p k = Some sx \<and> patternS_Y p k = Some sy
           \<and> patternE_X p k = Some ex \<and> patternE_Y p k = Some ey
           \<and> length px = 2 * length X \<and> length py = 2 * length X
           \<and> length sx = 2 * (length X - 1) \<and> length sy = 2 * (length X - 1)
           \<and> length ex = 2 * (length X - 1) \<and> length ey = 2 * (length X - 1)
           \<and> 2 \<le> length px \<and> 2 \<le> length sx \<and> 2 \<le> length ex"
proof -
  obtain p plX plY stX stY enX enY where p: "Pattern_init X Y = Inr p"
    and f: "pattern_X p = orient_X plX" "pattern_Y p = orient_Y plY"
      "patternS_X p = orient_X stX" "patternS_Y p = orient_Y stY"
      "patternE_X p = orient_X enX" "patternE_Y p = orient_Y enY"
    and l: "length plX = length X + min (length X) (length Y)"
      "length plY = length Y + min (length X) (length Y)"
      "length stX = (length X - 1) + min (length X - 1) (length Y - 1)"
      "length stY = (length Y - 1) + min (length X - 1) (length Y - 1)"
      "length enX = min (length stX) (length stY)"
      "length enY = min (length stX) (length stY)"
    by (rule Pattern_init_cases [of X Y])
  obtain px where px: "orient_X plX k = Some px" "length px = length plX"
    by (rule orient_X_dom [OF assms(3)])
  obtain py where py: "orient_Y plY k = Some py" "length py = length plY"
    by (rule orient_Y_dom [OF assms(3)])
  obtain sx where sx: "orient_X stX k = Some sx" "length sx = length stX"
    by (rule orient_X_dom [OF assms(3)])
  obtain sy where sy: "orient_Y stY k = Some sy" "length sy = length stY"
    by (rule orient_Y_dom [OF assms(3)])
  obtain ex where ex: "orient_X enX k = Some ex" "length ex = length enX"
    by (rule orient_X_dom [OF assms(3)])
  obtain ey where ey: "orient_Y enY k = Some ey" "length ey = length enY"
    by (rule orient_Y_dom [OF assms(3)])
  have m: "min (length X) (length Y) = length X"
    "min (length X - 1) (length Y - 1) = length X - 1"
    using assms(2) by simp_all
  have lst: "length stX = 2 * (length X - 1)" "length stY = 2 * (length X - 1)"
    using l(3,4) assms(2) unfolding m by simp_all
  have len: "length enX = 2 * (length X - 1)" "length enY = 2 * (length X - 1)"
    using l(5,6) unfolding lst by simp_all
  have lpl: "length plX = 2 * length X" "length plY = 2 * length X"
    using l(1,2) assms(2) unfolding m by simp_all
  have "length px = 2 * length X" "length py = 2 * length X"
    "length sx = 2 * (length X - 1)" "length sy = 2 * (length X - 1)"
    "length ex = 2 * (length X - 1)" "length ey = 2 * (length X - 1)"
    unfolding px(2) py(2) sx(2) sy(2) ex(2) ey(2) by (rule lpl lst len)+
  moreover from this have "2 \<le> length px" "2 \<le> length sx" "2 \<le> length ex"
    using assms(1) by simp_all
  ultimately show ?thesis
    using p px(1) py(1) sx(1) sy(1) ex(1) ey(1) by (simp add: f)
qed

theorem Pattern_point_counts_witness:
  "\<exists>p px py sx sy ex ey. Pattern_init default_X default_Y = Inr p
           \<and> pattern_X p 2 = Some px \<and> pattern_Y p 2 = Some py
           \<and> patternS_X p 2 = Some sx \<and> patternS_Y p 2 = Some sy
           \<and> patternE_X p 2 = Some ex \<and> patternE_Y p 2 = Some ey
           \<and> length px = 6 \<and> length py = 6
           \<and> length sx = 4 \<and> length sy = 4
           \<and> length ex = 4 \<and> length ey = 4
           \<and> 2 \<le> length px \<and> 2 \<le> length sx \<and> 2 \<le> length ex"
proof -
  have h1: "3 \<le> length default_X" by (simp add: default_X_def)
  have h2: "length default_Y = length default_X" by (simp add: default_X_def default_Y_def)
  have h3: "(2::int) \<in> {1, 2, 3, 4}" by simp
  have n: "length default_X = 3" by (simp add: default_X_def)
  show ?thesis
    using Pattern_point_counts [OF h1 h2 h3] unfolding n by simp
qed

text \<open>
  A root pattern of two points and one with three X and two Y coordinates
  both construct; the command-line entry turns the second away with a bare
  Exception.
\<close>

theorem Pattern_init_validation_counterexample:
  "\<not> isl (Pattern_init [1, 2] [3, 4]) \<and> \<not> isl (Pattern_init [1, 2, 3] [4, 5])
     \<and> Pattern_init [1, 2] [3, 4] \<noteq> Inl InvalidPatternError
     \<and> Pattern_init [1, 2, 3] [4, 5] \<noteq> Inl InvalidPatternError
     \<and> cli_main (Some [1, 2, 3]) (Some [4, 5]) 1 \<noteq> Inl InvalidPatternError"
proof -
  obtain p where p: "Pattern_init [1, 2] [3, 4] = Inr p"
    by (rule Pattern_init_cases [of "[1, 2]" "[3, 4]"])
  obtain q where q: "Pattern_init [1, 2, 3] [4, 5] = Inr q"
    by (rule Pattern_init_cases [of "[1, 2, 3]" "[4, 5]"])
  show ?thesis
    by (simp add: p q cli_main_def absent_def)
qed

subsection \<open>Steinhaus\<close>

lemma upto_1_4: "[1..4] = [1, 2, 3, 4::int]"
  by code_simp

lemma str_digits: "str 1 = ''1''" "str 2 = ''2''" "str 3 = ''3''" "str 4 = ''4''"
  by (simp_all add: str_def str_nat.simps digit_char_def)

lemma digit_cases:
  assumes "ch \<in> set ''1234''"
  shows "py_int ch = Inr (digit ch) \<and> digit ch \<in> {1, 2, 3, 4} \<and> str (digit ch) = [ch]"
  using assms by (auto simp: py_int_def digit_def str_digits)

lemma pow2_nat: "pow2 (int (Suc n) - 1) = 2 ^ n"
  by (simp add: pow2_def)

lemma orient_dom: "dom (orient_X x) = {1, 2, 3, 4}" "dom (orient_Y y) = {1, 2, 3, 4}"
  unfolding orient_X_def orient_Y_def by auto

lemma Pattern_init_wf:
  obtains p where "Pattern_init X Y = Inr p" "wf_pattern p"
proof -
  obtain p plX plY stX stY enX enY where p: "Pattern_init X Y = Inr p"
    and f: "pattern_X p = orient_X plX" "pattern_Y p = orient_Y plY"
      "patternS_X p = orient_X stX" "patternS_Y p = orient_Y stY"
      "patternE_X p = orient_X enX" "patternE_Y p = orient_Y enY"
    by (rule Pattern_init_cases [of X Y])
  have "wf_pattern p"
    unfolding wf_pattern_def f orient_dom by simp
  with p show ?thesis by (rule that)
qed

lemma get_wf:
  assumes "wf_pattern p" "k \<in> {1, 2, 3, 4}"
  shows "get p k idParent lvl off nParent =
           Inr (if k = 5 - idParent \<or> (nParent = 2 \<and> idParent = k)
                then connector_geometry p k (1 / pow2 (lvl - 1)) off
                else plain_geometry p k (1 / pow2 (lvl - 1)) off)"
proof -
  have d: "k \<in> dom (pattern_X p)" "k \<in> dom (pattern_Y p)" "k \<in> dom (patternS_X p)"
    "k \<in> dom (patternS_Y p)" "k \<in> dom (patternE_X p)" "k \<in> dom (patternE_Y p)"
    using assms unfolding wf_pattern_def by simp_all
  obtain px where px: "pattern_X p k = Some px" using d(1) by (auto simp: dom_def)
  obtain py where py: "pattern_Y p k = Some py" using d(2) by (auto simp: dom_def)
  obtain sx where sx: "patternS_X p k = Some sx" using d(3) by (auto simp: dom_def)
  obtain sy where sy: "patternS_Y p k = Some sy" using d(4) by (auto simp: dom_def)
  obtain ex where ex: "patternE_X p k = Some ex" using d(5) by (auto simp: dom_def)
  obtain ey where ey: "patternE_Y p k = Some ey" using d(6) by (auto simp: dom_def)
  show ?thesis
    unfolding get_def connector_geometry_def plain_geometry_def affine_def Let_def
      px py sx sy ex ey
    by simp
qed

lemma getOffset_loop_digits:
  assumes "set key \<subseteq> set ''1234''"
  shows "getOffset_loop i key (ox, oy) =
     Inr (ox + sum_list (map (\<lambda>j. if odd (digit (key ! j)) then - (1 / 2 ^ (i + j + 1)) else 1 / 2 ^ (i + j + 1)) [0..<length key]),
          oy + sum_list (map (\<lambda>j. if digit (key ! j) < 3 then 1 / 2 ^ (i + j + 1) else - (1 / 2 ^ (i + j + 1))) [0..<length key]))"
  using assms
proof (induction key arbitrary: i ox oy)
  case Nil
  then show ?case by simp
next
  case (Cons ch key)
  have ch: "py_int ch = Inr (digit ch)" "digit ch \<in> {1, 2, 3, 4}"
    using digit_cases [of ch] Cons.prems by auto
  have od: "(digit ch mod 2 = 1) = odd (digit ch)"
    by presburger
  have up: "[0..<length (ch # key)] = 0 # map Suc [0..<length key]"
    by (simp add: upt_conv_Cons map_Suc_upt del: upt_Suc)
  have k: "set key \<subseteq> set ''1234''" using Cons.prems by simp
  show ?case
    unfolding up
    by (simp add: ch(1) od Cons.IH [OF k] o_def Let_def cong: if_cong)
qed

lemma getOffset_digits:
  assumes "set key \<subseteq> set ''1234''"
  shows "getOffset key = Inr (spec_offset_X key, spec_offset_Y key)"
  unfolding getOffset_def spec_offset_X_def spec_offset_Y_def
  by (simp only: getOffset_loop_digits [OF assms, of 0 0 0] add_0)

lemma getFromKey_child:
  assumes "wf_pattern p" "key \<noteq> []" "set key \<subseteq> set ''1234''" "ch \<in> set ''1234''"
  shows "getFromKey p (key @ [ch]) nParent =
     Inr (if digit ch = 5 - digit (last key) \<or> (nParent = 2 \<and> digit (last key) = digit ch)
          then connector_geometry p (digit ch) (1 / 2 ^ length key)
                 (spec_offset_X key, spec_offset_Y key)
          else plain_geometry p (digit ch) (1 / 2 ^ length key)
                 (spec_offset_X key, spec_offset_Y key))"
proof -
  have c: "py_int ch = Inr (digit ch)" "digit ch \<in> {1, 2, 3, 4}"
    using digit_cases [OF assms(4)] by simp_all
  have "last key \<in> set key" using assms(2) by simp
  then have "last key \<in> set ''1234''" using assms(3) by blast
  then have l: "py_int (last key) = Inr (digit (last key))"
    using digit_cases by blast
  have n: "(key @ [ch]) ! (length (key @ [ch]) - 2) = last key"
    using assms(2) by (simp add: nth_append last_conv_nth)
  have len: "\<not> length (key @ [ch]) < 2"
    using assms(2) by (cases key) simp_all
  have sc: "pow2 (int (length (key @ [ch])) - 1) = 2 ^ length key"
    using pow2_nat [of "length key"] by simp
  show ?thesis
    unfolding getFromKey_def n
    using len by (simp add: c(1) l getOffset_digits [OF assms(3)] get_wf [OF assms(1) c(2)] sc
        del: length_append)
qed

lemma flag_snoc:
  assumes "key \<noteq> []"
  shows "flag (key @ [ch]) =
     (if digit ch = 5 - digit (last key) \<or> (flag key = 2 \<and> digit ch = digit (last key))
      then 2 else 1)"
proof -
  have r: "rev key = last key # rev (butlast key)"
    using assms by (metis append_butlast_last_id rev.simps(2) rev_eq_Cons_iff rev_rev_ident)
  show ?thesis
    unfolding flag_def by (simp add: r)
qed

lemma resolved_snoc:
  assumes "key \<noteq> []"
  shows "resolved p (key @ [ch]) =
     (if digit ch = 5 - digit (last key) \<or> (flag key = 2 \<and> digit (last key) = digit ch)
      then connector_geometry p (digit ch) (1 / 2 ^ length key)
             (spec_offset_X key, spec_offset_Y key)
      else plain_geometry p (digit ch) (1 / 2 ^ length key)
             (spec_offset_X key, spec_offset_Y key))"
  unfolding resolved_def Let_def flag_snoc [OF assms] by auto

lemma resolved_nParent:
  "(int (length (fst (resolved p key))) = 2) = (flag key = 2)"
  unfolding resolved_def Let_def connector_geometry_def plain_geometry_def by simp

lemma getFromKey_resolved:
  assumes "wf_pattern p" "key \<noteq> []" "set key \<subseteq> set ''1234''" "ch \<in> set ''1234''"
  shows "getFromKey p (key @ [ch]) (int (length (fst (resolved p key)))) =
           Inr (resolved p (key @ [ch]))"
  unfolding getFromKey_child [OF assms] resolved_snoc [OF assms(2)] resolved_nParent ..

lemma children_resolved:
  assumes "wf_pattern p" "key \<noteq> []" "set key \<subseteq> set ''1234''"
  shows "dict_comprehension (\<lambda>k. key @ str k)
           (\<lambda>k. getFromKey p (key @ str k) (int (length (fst (resolved p key))))) [1..4] [] =
         Inr [(key @ ''1'', resolved p (key @ ''1'')), (key @ ''2'', resolved p (key @ ''2'')),
              (key @ ''3'', resolved p (key @ ''3'')), (key @ ''4'', resolved p (key @ ''4''))]"
  unfolding upto_1_4
  by (simp add: str_digits getFromKey_resolved [OF assms])

lemma resolved_level1:
  assumes "ch \<in> set ''1234''"
  shows "resolved p [ch] = plain_geometry p (digit ch) 1 (0, 0)"
  unfolding resolved_def Let_def flag_def spec_offset_X_def spec_offset_Y_def by simp

lemma level1_resolved:
  assumes "wf_pattern p"
  shows "dict_comprehension str (\<lambda>k. get p k 0 1 (0, 0) 1) [1..4] [] =
         Inr [(''1'', resolved p ''1''), (''2'', resolved p ''2''),
              (''3'', resolved p ''3''), (''4'', resolved p ''4'')]"
  unfolding upto_1_4
  by (simp add: str_digits get_wf [OF assms] resolved_level1 digit_def py_int_def pow2_def)

lemma snoc_digit_iff:
  "(k \<noteq> [] \<and> last k \<in> set ''1234'' \<and> butlast k = key) =
     (k = key @ ''1'' \<or> k = key @ ''2'' \<or> k = key @ ''3'' \<or> k = key @ ''4'')"
proof
  assume a: "k \<noteq> [] \<and> last k \<in> set ''1234'' \<and> butlast k = key"
  then have "k = key @ [last k]" by (metis append_butlast_last_id)
  moreover have "last k = CHR ''1'' \<or> last k = CHR ''2'' \<or> last k = CHR ''3'' \<or> last k = CHR ''4''"
    using a by simp
  ultimately show "k = key @ ''1'' \<or> k = key @ ''2'' \<or> k = key @ ''3'' \<or> k = key @ ''4''"
    by metis
next
  assume "k = key @ ''1'' \<or> k = key @ ''2'' \<or> k = key @ ''3'' \<or> k = key @ ''4''"
  then show "k \<noteq> [] \<and> last k \<in> set ''1234'' \<and> butlast k = key"
    by auto
qed

lemma addrs_Suc_iff:
  "(k \<in> addrs (Suc n)) = (k \<noteq> [] \<and> last k \<in> set ''1234'' \<and> butlast k \<in> addrs n)"
proof
  assume a: "k \<in> addrs (Suc n)"
  have sk: "set k \<subseteq> set ''1234''" "length k = Suc n"
    using a unfolding addrs_def by blast+
  have ne: "k \<noteq> []" using sk(2) by auto
  then have "last k \<in> set k" by simp
  then have l: "last k \<in> set ''1234''" using sk(1) by blast
  have "set (butlast k) \<subseteq> set k" by (meson in_set_butlastD subsetI)
  then have "set (butlast k) \<subseteq> set ''1234''" using sk(1) by blast
  moreover have "length (butlast k) = n" using sk(2) by simp
  ultimately have "butlast k \<in> addrs n" unfolding addrs_def by blast
  then show "k \<noteq> [] \<and> last k \<in> set ''1234'' \<and> butlast k \<in> addrs n"
    using ne l by blast
next
  assume a: "k \<noteq> [] \<and> last k \<in> set ''1234'' \<and> butlast k \<in> addrs n"
  then have k: "k = butlast k @ [last k]" by simp
  have "set k \<subseteq> set ''1234''"
    using a by (subst k) (auto simp: addrs_def simp del: append_butlast_last_id)
  moreover have "length k = Suc n"
    using a by (subst k) (auto simp: addrs_def simp del: append_butlast_last_id)
  ultimately show "k \<in> addrs (Suc n)" by (simp add: addrs_def)
qed

lemma dict_update4:
  "dict_update acc [(k1, v1), (k2, v2), (k3, v3), (k4, v4)] =
     AList.update k4 v4 (AList.update k3 v3 (AList.update k2 v2 (AList.update k1 v1 acc)))"
  by (simp add: dict_update_def)

lemma generateLevel_loop_inv:
  assumes "wf_pattern p" and "0 < n"
    and "\<And>key g. (key, g) \<in> set items \<Longrightarrow> key \<in> addrs n \<and> g = resolved p key"
  shows "\<exists>d. generateLevel_loop p items acc = Inr d
           \<and> (distinct (map fst acc) \<longrightarrow> distinct (map fst d))
           \<and> map_of d = (\<lambda>k. if k \<noteq> [] \<and> last k \<in> set ''1234'' \<and> butlast k \<in> fst ` set items
                              then Some (resolved p k) else map_of acc k)"
  using assms(3)
proof (induction items arbitrary: acc)
  case Nil
  then show ?case by simp
next
  case (Cons item items)
  obtain key g where item: "item = (key, g)" by (cases item)
  have kg: "key \<in> addrs n" "g = resolved p key"
    using Cons.prems [of key g] by (simp_all add: item)
  have ne: "key \<noteq> []" and dg: "set key \<subseteq> set ''1234''"
    using kg(1) assms(2) by (auto simp: addrs_def)
  define acc' where "acc' = dict_update acc
      [(key @ ''1'', resolved p (key @ ''1'')), (key @ ''2'', resolved p (key @ ''2'')),
       (key @ ''3'', resolved p (key @ ''3'')), (key @ ''4'', resolved p (key @ ''4''))]"
  have step: "generateLevel_loop p (item # items) acc = generateLevel_loop p items acc'"
    unfolding item kg(2) acc'_def
    by (simp add: children_resolved [OF assms(1) ne dg])
  have rest: "k' \<in> addrs n \<and> g' = resolved p k'" if "(k', g') \<in> set items" for k' g'
    using Cons.prems [of k' g'] that by simp
  obtain d where d: "generateLevel_loop p items acc' = Inr d"
    "distinct (map fst acc') \<longrightarrow> distinct (map fst d)"
    "map_of d = (\<lambda>k. if k \<noteq> [] \<and> last k \<in> set ''1234'' \<and> butlast k \<in> fst ` set items
                       then Some (resolved p k) else map_of acc' k)"
    using Cons.IH [OF rest, of acc'] by blast
  have dist: "distinct (map fst acc) \<longrightarrow> distinct (map fst acc')"
    unfolding acc'_def dict_update4 by (simp add: distinct_update)
  have m: "map_of acc' k =
      (if k \<noteq> [] \<and> last k \<in> set ''1234'' \<and> butlast k = key then Some (resolved p k)
       else map_of acc k)" for k
    unfolding snoc_digit_iff acc'_def dict_update4 by (auto simp: update_conv')
  have "map_of d = (\<lambda>k. if k \<noteq> [] \<and> last k \<in> set ''1234'' \<and> butlast k \<in> fst ` set (item # items)
                       then Some (resolved p k) else map_of acc k)"
    unfolding d(3) m item by (rule ext) auto
  then show ?case
    using d(1,2) dist unfolding step by blast
qed

lemma level_inv_set:
  assumes "level_inv p n d" "(key, g) \<in> set d"
  shows "key \<in> addrs n \<and> g = resolved p key"
proof -
  have dist: "distinct (map fst d)"
    and m: "map_of d = (\<lambda>k. if k \<in> addrs n then Some (resolved p k) else None)"
    using assms(1) unfolding level_inv_def by blast+
  have "map_of d key = Some g"
    using dist assms(2) by (rule map_of_is_SomeI)
  then have "(if key \<in> addrs n then Some (resolved p key) else None) = Some g"
    unfolding m .
  then show ?thesis
    by (simp split: if_splits)
qed

lemma level_inv_keys:
  assumes "level_inv p n d"
  shows "set (map fst d) = addrs n"
proof -
  have "fst ` set d = dom (map_of d)" by (simp add: dom_map_of_conv_image_fst)
  also have "\<dots> = addrs n"
    using assms unfolding level_inv_def by (auto simp: dom_def)
  finally show ?thesis by simp
qed

lemma generateLevel_loop_level:
  assumes "wf_pattern p" "0 < n" "level_inv p n prev"
  shows "\<exists>d. generateLevel_loop p prev [] = Inr d \<and> level_inv p (Suc n) d"
proof -
  have items: "\<And>key g. (key, g) \<in> set prev \<Longrightarrow> key \<in> addrs n \<and> g = resolved p key"
    using level_inv_set [OF assms(3)] by blast
  obtain d where d: "generateLevel_loop p prev [] = Inr d" "distinct (map fst d)"
    "map_of d = (\<lambda>k. if k \<noteq> [] \<and> last k \<in> set ''1234'' \<and> butlast k \<in> fst ` set prev
                       then Some (resolved p k) else map_of [] k)"
    using generateLevel_loop_inv [OF assms(1,2) items, of prev "[]"] by auto
  have "fst ` set prev = addrs n"
    using level_inv_keys [OF assms(3)] by simp
  then have "map_of d = (\<lambda>k. if k \<in> addrs (Suc n) then Some (resolved p k) else None)"
    unfolding d(3) addrs_Suc_iff by (simp cong: if_cong)
  then show ?thesis
    using d(1,2) unfolding level_inv_def by blast
qed

lemma generateLevel_inv:
  assumes "wf_pattern p" "curve_inv p lvl m s" "0 < m"
  shows "\<exists>s'. generateLevel s (int m + 1) = Inr s' \<and> curve_inv p lvl (Suc m) s'"
proof -
  have s: "level s = lvl" "pattern s = p" "dom (lines s) = {1..int m}"
    and lv: "\<And>n. 1 \<le> n \<Longrightarrow> n \<le> m \<Longrightarrow> \<exists>d. lines s (int n) = Some d \<and> level_inv p n d"
    using assms(2) unfolding curve_inv_def by blast+
  obtain prev where prev: "lines s (int m) = Some prev" "level_inv p m prev"
    using lv [of m] assms(3) by auto
  obtain d where d: "generateLevel_loop p prev [] = Inr d" "level_inv p (Suc m) d"
    using generateLevel_loop_level [OF assms(1,3) prev(2)] by blast
  define s' where "s' = s\<lparr>lines := ((lines s)(int m + 1 \<mapsto> []))(int m + 1 \<mapsto> d)\<rparr>"
  have g: "generateLevel s (int m + 1) = Inr s'"
    unfolding generateLevel_def Let_def s'_def by (simp add: prev(1) s(2) d(1))
  have l': "lines s' = (lines s)(int m + 1 \<mapsto> d)"
    unfolding s'_def by simp
  have "dom (lines s') = {1..int (Suc m)}"
    unfolding l' using s(3) by auto
  moreover have "\<exists>d'. lines s' (int n) = Some d' \<and> level_inv p n d'"
    if "1 \<le> n" "n \<le> Suc m" for n
  proof (cases "n = Suc m")
    case True
    then show ?thesis unfolding l' using d(2) by simp
  next
    case False
    then have "n \<le> m" using that by simp
    then show ?thesis unfolding l' using lv [OF that(1)] by simp
  qed
  moreover have "level s' = lvl" "pattern s' = p"
    unfolding s'_def using s(1,2) by simp_all
  ultimately have "curve_inv p lvl (Suc m) s'"
    unfolding curve_inv_def by blast
  with g show ?thesis by blast
qed

lemma generateLevels_inv:
  assumes "wf_pattern p" "curve_inv p lvl m s" "0 < m"
  shows "\<exists>s'. generateLevels s [int m + 1..int m + int j] = Inr s' \<and> curve_inv p lvl (m + j) s'"
  using assms(2,3)
proof (induction j arbitrary: m s)
  case 0
  then show ?case by simp
next
  case (Suc j)
  obtain s1 where s1: "generateLevel s (int m + 1) = Inr s1" "curve_inv p lvl (Suc m) s1"
    using generateLevel_inv [OF assms(1) Suc.prems] by blast
  have u: "[int m + 1..int m + int (Suc j)] = (int m + 1) # [int (Suc m) + 1..int (Suc m) + int j]"
    using upto_rec1 [of "int m + 1" "int m + int (Suc j)"] by (simp add: add.commute add.left_commute)
  obtain s' where s': "generateLevels s1 [int (Suc m) + 1..int (Suc m) + int j] = Inr s'"
    "curve_inv p lvl (Suc m + j) s'"
    using Suc.IH [OF s1(2)] by auto
  show ?case
    unfolding u using s1(1) s' by simp
qed

lemma addrs_1: "addrs 1 = {''1'', ''2'', ''3'', ''4''}"
proof -
  have "k \<in> addrs (Suc 0) \<longleftrightarrow> k \<in> {''1'', ''2'', ''3'', ''4''}" for k
    unfolding addrs_Suc_iff using snoc_digit_iff [of k "[]"] by (auto simp: addrs_def)
  then show ?thesis by auto
qed

lemma level1_inv:
  "level_inv p 1 [(''1'', resolved p ''1''), (''2'', resolved p ''2''),
                  (''3'', resolved p ''3''), (''4'', resolved p ''4'')]"
  unfolding level_inv_def addrs_1 by (auto simp: fun_eq_iff)

lemma Steinhaus_init_inv:
  obtains p s where "Pattern_init X Y = Inr p" "wf_pattern p"
    "Steinhaus_init lvl X Y = Inr s" "curve_inv p lvl (max 1 (nat lvl)) s"
proof -
  obtain p where p: "Pattern_init X Y = Inr p" "wf_pattern p"
    by (rule Pattern_init_wf)
  define d1 where "d1 = [(''1'', resolved p ''1''), (''2'', resolved p ''2''),
                         (''3'', resolved p ''3''), (''4'', resolved p ''4'')]"
  define s1 where "s1 = \<lparr>level = lvl, pattern = p, lines = [1 \<mapsto> d1]\<rparr>"
  have i1: "curve_inv p lvl 1 s1"
    unfolding curve_inv_def s1_def using level1_inv [of p] by (auto simp: d1_def)
  have st: "Steinhaus_init lvl X Y = generateLevels s1 [2..lvl]"
    unfolding Steinhaus_init_def s1_def d1_def by (simp add: p(1) level1_resolved [OF p(2)])
  have u: "[2..lvl] = [int 1 + 1..int 1 + int (nat (lvl - 1))]"
    by (cases "1 \<le> lvl") simp_all
  obtain s where s: "generateLevels s1 [int 1 + 1..int 1 + int (nat (lvl - 1))] = Inr s"
    "curve_inv p lvl (1 + nat (lvl - 1)) s"
    using generateLevels_inv [OF p(2) i1, of "nat (lvl - 1)"] by auto
  have "1 + nat (lvl - 1) = max 1 (nat lvl)" by auto
  then show ?thesis
    using that [OF p] st s unfolding u by simp
qed

subsection \<open>Levels and addresses\<close>

lemma Pattern_init_wf_any:
  assumes "Pattern_init X Y = Inr p"
  shows "wf_pattern p"
  using Pattern_init_wf [of X Y] assms by auto

lemma Steinhaus_init_levels:
  obtains p s where "Pattern_init X Y = Inr p" "wf_pattern p"
    "Steinhaus_init depth X Y = Inr s" "level s = depth" "pattern s = p"
    "dom (lines s) = {1..int (max 1 (nat depth))}"
    "\<And>n. 1 \<le> n \<Longrightarrow> int n \<le> depth \<or> n = 1 \<Longrightarrow> \<exists>d. lines s (int n) = Some d \<and> level_inv p n d"
proof -
  obtain p s where ps: "Pattern_init X Y = Inr p" "wf_pattern p"
    "Steinhaus_init depth X Y = Inr s" "curve_inv p depth (max 1 (nat depth)) s"
    by (rule Steinhaus_init_inv)
  have c: "level s = depth" "pattern s = p" "dom (lines s) = {1..int (max 1 (nat depth))}"
    and lv: "\<And>n. 1 \<le> n \<and> n \<le> max 1 (nat depth) \<Longrightarrow> \<exists>d. lines s (int n) = Some d \<and> level_inv p n d"
    using ps(4) unfolding curve_inv_def by blast+
  have "\<exists>d. lines s (int n) = Some d \<and> level_inv p n d" if "1 \<le> n" "int n \<le> depth \<or> n = 1" for n
  proof -
    have "n \<le> max 1 (nat depth)" using that by auto
    then show ?thesis using lv [of n] that(1) by blast
  qed
  then show ?thesis
    using that [OF ps(1,2,3) c] by blast
qed

lemma addresses_level:
  assumes "1 \<le> n" "int n \<le> depth \<or> n = 1"
  shows "distinct (addresses (Steinhaus_init depth X Y) (int n))
         \<and> set (addresses (Steinhaus_init depth X Y) (int n)) = addrs n"
proof -
  obtain p s where s: "Steinhaus_init depth X Y = Inr s"
    and lv: "\<And>n. 1 \<le> n \<Longrightarrow> int n \<le> depth \<or> n = 1 \<Longrightarrow> \<exists>d. lines s (int n) = Some d \<and> level_inv p n d"
    by (rule Steinhaus_init_levels [of X Y depth]) blast
  obtain d where d: "lines s (int n) = Some d" "level_inv p n d"
    using lv [OF assms] by blast
  have a: "addresses (Steinhaus_init depth X Y) (int n) = map fst d"
    unfolding addresses_def s by (simp add: d(1))
  show ?thesis
    unfolding a using d(2) level_inv_keys [OF d(2)] unfolding level_inv_def by blast
qed

lemma card_digits: "card (set ''1234'') = 4"
  by simp

lemma card_addrs: "card (addrs n) = 4 ^ n"
  unfolding addrs_def
  using card_lists_length_eq [of "set ''1234''" n] unfolding card_digits by simp

lemma finite_addrs: "finite (addrs n)"
  unfolding addrs_def using finite_lists_length_eq [of "set ''1234''" n] by simp

lemma addrs_root:
  assumes "r \<in> set ''1234''"
  shows "{key \<in> addrs (Suc n). prefix [r] key} = (\<lambda>key. r # key) ` addrs n"
proof (rule set_eqI)
  fix key
  show "key \<in> {key \<in> addrs (Suc n). prefix [r] key} \<longleftrightarrow> key \<in> (\<lambda>key. r # key) ` addrs n"
  proof
    assume "key \<in> {key \<in> addrs (Suc n). prefix [r] key}"
    then have a: "set key \<subseteq> set ''1234''" "length key = Suc n" "prefix [r] key"
      unfolding addrs_def by blast+
    obtain t where t: "key = r # t" using a(3) by (auto simp: prefix_def)
    have "t \<in> addrs n" using a(1,2) unfolding t addrs_def by auto
    then show "key \<in> (\<lambda>key. r # key) ` addrs n" unfolding t by blast
  next
    assume "key \<in> (\<lambda>key. r # key) ` addrs n"
    then obtain t where t: "key = r # t" "t \<in> addrs n" by blast
    then show "key \<in> {key \<in> addrs (Suc n). prefix [r] key}"
      using assms unfolding addrs_def by auto
  qed
qed

lemma card_addrs_root:
  assumes "r \<in> set ''1234''" "1 \<le> n"
  shows "card {key \<in> addrs n. prefix [r] key} = 4 ^ (n - 1)"
proof -
  obtain m where n: "n = Suc m" using assms(2) by (cases n) auto
  have "card ((\<lambda>key. r # key) ` addrs m) = card (addrs m)"
    by (rule card_image) (simp add: inj_on_def)
  then show ?thesis
    unfolding n addrs_root [OF assms(1)] card_addrs by simp
qed

lemma addrs_children:
  assumes "key \<in> addrs n"
  shows "{key' \<in> addrs (Suc n). strict_prefix key key'} =
           {key @ ''1'', key @ ''2'', key @ ''3'', key @ ''4''}"
proof (rule set_eqI)
  fix k
  have "(k \<in> addrs (Suc n) \<and> strict_prefix key k) = (k \<noteq> [] \<and> last k \<in> set ''1234'' \<and> butlast k = key)"
  proof
    assume a: "k \<in> addrs (Suc n) \<and> strict_prefix key k"
    then have b: "k \<noteq> []" "last k \<in> set ''1234''" "butlast k \<in> addrs n"
      unfolding addrs_Suc_iff by blast+
    have "prefix key (butlast k)"
      using a b(1) by (metis append_butlast_last_id prefix_snoc strict_prefix_def)
    then obtain zs where zs: "butlast k = key @ zs" by (auto simp: prefix_def)
    have "length key = length (butlast k)"
      using assms b(3) unfolding addrs_def by simp
    then have "length zs = 0" unfolding zs by simp
    then have "butlast k = key" using zs by simp
    then show "k \<noteq> [] \<and> last k \<in> set ''1234'' \<and> butlast k = key" using b by blast
  next
    assume a: "k \<noteq> [] \<and> last k \<in> set ''1234'' \<and> butlast k = key"
    then have "k = key @ [last k]" by (metis append_butlast_last_id)
    then have "strict_prefix key k" by (rule strict_prefixI' [of k key "last k" "[]"])
    moreover have "k \<in> addrs (Suc n)"
      unfolding addrs_Suc_iff using a assms by blast
    ultimately show "k \<in> addrs (Suc n) \<and> strict_prefix key k" by blast
  qed
  then show "k \<in> {key' \<in> addrs (Suc n). strict_prefix key key'} \<longleftrightarrow>
             k \<in> {key @ ''1'', key @ ''2'', key @ ''3'', key @ ''4''}"
    unfolding snoc_digit_iff by blast
qed


lemma addresses_length:
  assumes "1 \<le> n" "int n \<le> depth \<or> n = 1"
  shows "length (addresses (Steinhaus_init depth X Y) (int n)) = 4 ^ n"
proof -
  have d: "distinct (addresses (Steinhaus_init depth X Y) (int n))"
    and e: "set (addresses (Steinhaus_init depth X Y) (int n)) = addrs n"
    using addresses_level [OF assms] by blast+
  have "length (addresses (Steinhaus_init depth X Y) (int n)) = card (addrs n)"
    using distinct_card [OF d] unfolding e by simp
  then show ?thesis unfolding card_addrs .
qed

text \<open>
  Level 2 of a curve of depth 2 holds 16 addresses, not \<open>4^(2-1) = 4\<close>: that
  is the count under one root, not the count of the level.
\<close>

theorem level_addresses_counterexample:
  "length (addresses (Steinhaus_init 2 default_X default_Y) 2) \<noteq> 4 ^ (2 - 1)"
  using addresses_length [of 2 2 default_X default_Y] by simp

text \<open>
  Claim C3, as the code has it. For depths \<open>d1 < d2\<close> up to the requested
  maximum, every address of level \<open>d1\<close> is a strict prefix of exactly 4
  addresses of level \<open>d1 + 1\<close>, its extensions by one digit 1-4; the addresses
  of level \<open>d2\<close> are distinct and are all the strings of \<open>d2\<close> digits 1-4, so
  the level holds \<open>4^d2\<close> addresses, of which \<open>4^(d2-1)\<close> lie under each of the
  four level-1 addresses.
\<close>

theorem level_addresses:
  assumes "1 \<le> d1" and "d1 < d2" and "int d2 \<le> depth"
    and "key \<in> set (addresses (Steinhaus_init depth X Y) (int d1))"
    and "r \<in> set ''1234''"
  shows "{key' \<in> set (addresses (Steinhaus_init depth X Y) (int (Suc d1))). strict_prefix key key'}
           = {key @ ''1'', key @ ''2'', key @ ''3'', key @ ''4''}
         \<and> card {key' \<in> set (addresses (Steinhaus_init depth X Y) (int (Suc d1))).
                   strict_prefix key key'} = 4
         \<and> distinct (addresses (Steinhaus_init depth X Y) (int d2))
         \<and> set (addresses (Steinhaus_init depth X Y) (int d2)) = addrs d2
         \<and> length (addresses (Steinhaus_init depth X Y) (int d2)) = 4 ^ d2
         \<and> card {k \<in> set (addresses (Steinhaus_init depth X Y) (int d2)). prefix [r] k}
             = 4 ^ (d2 - 1)"
proof -
  have h1: "int d1 \<le> depth \<or> d1 = 1" and h1': "1 \<le> Suc d1" "int (Suc d1) \<le> depth \<or> Suc d1 = 1"
    and h2: "1 \<le> d2" "int d2 \<le> depth \<or> d2 = 1"
    using assms(1,2,3) by auto
  have k: "key \<in> addrs d1"
    using assms(4) addresses_level [OF assms(1) h1, of X Y] by simp
  have c: "{key' \<in> set (addresses (Steinhaus_init depth X Y) (int (Suc d1))). strict_prefix key key'}
           = {key @ ''1'', key @ ''2'', key @ ''3'', key @ ''4''}"
    using addresses_level [OF h1', of X Y] addrs_children [OF k] by simp
  have c4: "card {key @ ''1'', key @ ''2'', key @ ''3'', key @ ''4''} = 4"
    by simp
  have r: "card {k \<in> set (addresses (Steinhaus_init depth X Y) (int d2)). prefix [r] k}
             = 4 ^ (d2 - 1)"
    using addresses_level [OF h2, of X Y] card_addrs_root [OF assms(5) h2(1)] by simp
  show ?thesis
    using c c4 r addresses_level [OF h2, of X Y] addresses_length [OF h2, of X Y] by simp
qed

theorem level_addresses_witness:
  "{key' \<in> set (addresses (Steinhaus_init 2 default_X default_Y) 2). strict_prefix ''3'' key'}
           = {''31'', ''32'', ''33'', ''34''}
     \<and> card {key' \<in> set (addresses (Steinhaus_init 2 default_X default_Y) 2).
               strict_prefix ''3'' key'} = 4
     \<and> distinct (addresses (Steinhaus_init 2 default_X default_Y) 2)
     \<and> set (addresses (Steinhaus_init 2 default_X default_Y) 2) = addrs 2
     \<and> length (addresses (Steinhaus_init 2 default_X default_Y) 2) = 16
     \<and> card {k \<in> set (addresses (Steinhaus_init 2 default_X default_Y) 2). prefix ''2'' k} = 4"
proof -
  have h1: "1 \<le> (1::nat)" by simp
  have h2: "(1::nat) < 2" by simp
  have h3: "int 2 \<le> 2" by simp
  have "set (addresses (Steinhaus_init 2 default_X default_Y) (int 1)) = addrs 1"
    using addresses_level [of 1 2 default_X default_Y] by simp
  then have h4: "''3'' \<in> set (addresses (Steinhaus_init 2 default_X default_Y) (int 1))"
    unfolding addrs_1 by simp
  have h5: "CHR ''2'' \<in> set ''1234''" by simp
  have t: "int (Suc 1) = 2" "int 2 = 2" "''3'' @ ''1'' = ''31''" "''3'' @ ''2'' = ''32''"
    "''3'' @ ''3'' = ''33''" "''3'' @ ''4'' = ''34''" "(4::nat) ^ 2 = 16" "(4::nat) ^ (2 - 1) = 4"
    by simp_all
  show ?thesis
    using level_addresses [OF h1 h2 h3 h4 h5] unfolding t .
qed


lemma wf_pattern_lookup:
  assumes "wf_pattern p" "k \<in> {1, 2, 3, 4}"
  obtains px py sx sy ex ey where
    "pattern_X p k = Some px" "pattern_Y p k = Some py" "patternS_X p k = Some sx"
    "patternS_Y p k = Some sy" "patternE_X p k = Some ex" "patternE_Y p k = Some ey"
proof -
  have d: "k \<in> dom (pattern_X p)" "k \<in> dom (pattern_Y p)" "k \<in> dom (patternS_X p)"
    "k \<in> dom (patternS_Y p)" "k \<in> dom (patternE_X p)" "k \<in> dom (patternE_Y p)"
    using assms unfolding wf_pattern_def by simp_all
  obtain px where px: "pattern_X p k = Some px" using d(1) by (auto simp: dom_def)
  obtain py where py: "pattern_Y p k = Some py" using d(2) by (auto simp: dom_def)
  obtain sx where sx: "patternS_X p k = Some sx" using d(3) by (auto simp: dom_def)
  obtain sy where sy: "patternS_Y p k = Some sy" using d(4) by (auto simp: dom_def)
  obtain ex where ex: "patternE_X p k = Some ex" using d(5) by (auto simp: dom_def)
  obtain ey where ey: "patternE_Y p k = Some ey" using d(6) by (auto simp: dom_def)
  show ?thesis by (rule that [OF px py sx sy ex ey])
qed

text \<open>
  Claim C2. For every address of digits 1-4 and length \<open>d\<close> that the curve
  reaches, the geometry stored for it is the pattern of the final digit's
  orientation (plain, or connector-start and connector-end), every coordinate
  multiplied by \<open>1/2^(d-1)\<close> and translated by the offset summed over the digits
  before the final one; this is the value \<open>resolved\<close>.
\<close>

theorem stored_geometry_resolved:
  assumes "key \<noteq> []" and "set key \<subseteq> set ''1234''"
    and "int (length key) \<le> depth \<or> length key = 1"
  shows "\<exists>p s d px py sx sy ex ey.
           Pattern_init X Y = Inr p \<and> Steinhaus_init depth X Y = Inr s
           \<and> pattern s = p \<and> lines s (int (length key)) = Some d
           \<and> map_of d key = Some (resolved p key)
           \<and> pattern_X p (digit (last key)) = Some px
           \<and> pattern_Y p (digit (last key)) = Some py
           \<and> patternS_X p (digit (last key)) = Some sx
           \<and> patternS_Y p (digit (last key)) = Some sy
           \<and> patternE_X p (digit (last key)) = Some ex
           \<and> patternE_Y p (digit (last key)) = Some ey
           \<and> map_of d key =
               Some (if flag key = 2
                     then ([map (\<lambda>v. 1 / 2 ^ (length key - 1) * v + spec_offset_X (butlast key)) sx,
                            map (\<lambda>v. 1 / 2 ^ (length key - 1) * v + spec_offset_X (butlast key)) ex],
                           [map (\<lambda>v. 1 / 2 ^ (length key - 1) * v + spec_offset_Y (butlast key)) sy,
                            map (\<lambda>v. 1 / 2 ^ (length key - 1) * v + spec_offset_Y (butlast key)) ey])
                     else ([map (\<lambda>v. 1 / 2 ^ (length key - 1) * v + spec_offset_X (butlast key)) px],
                           [map (\<lambda>v. 1 / 2 ^ (length key - 1) * v + spec_offset_Y (butlast key)) py]))"
proof -
  obtain p s where p: "Pattern_init X Y = Inr p" and wf: "wf_pattern p"
    and s: "Steinhaus_init depth X Y = Inr s" and ps: "pattern s = p"
    and lv: "\<And>n. 1 \<le> n \<Longrightarrow> int n \<le> depth \<or> n = 1 \<Longrightarrow> \<exists>d. lines s (int n) = Some d \<and> level_inv p n d"
    by (rule Steinhaus_init_levels [of X Y depth]) blast
  have "1 \<le> length key" using assms(1) by (cases key) simp_all
  then obtain d where d: "lines s (int (length key)) = Some d" "level_inv p (length key) d"
    using lv [OF _ assms(3)] by blast
  have "key \<in> addrs (length key)"
    using assms(2) unfolding addrs_def by simp
  then have m: "map_of d key = Some (resolved p key)"
    using d(2) unfolding level_inv_def by simp
  have "last key \<in> set key" using assms(1) by simp
  then have "last key \<in> set ''1234''" using assms(2) by blast
  then have k: "digit (last key) \<in> {1, 2, 3, 4}"
    using digit_cases by blast
  obtain px py sx sy ex ey where f:
    "pattern_X p (digit (last key)) = Some px" "pattern_Y p (digit (last key)) = Some py"
    "patternS_X p (digit (last key)) = Some sx" "patternS_Y p (digit (last key)) = Some sy"
    "patternE_X p (digit (last key)) = Some ex" "patternE_Y p (digit (last key)) = Some ey"
    by (rule wf_pattern_lookup [OF wf k])
  have r: "resolved p key =
      (if flag key = 2
       then ([map (\<lambda>v. 1 / 2 ^ (length key - 1) * v + spec_offset_X (butlast key)) sx,
              map (\<lambda>v. 1 / 2 ^ (length key - 1) * v + spec_offset_X (butlast key)) ex],
             [map (\<lambda>v. 1 / 2 ^ (length key - 1) * v + spec_offset_Y (butlast key)) sy,
              map (\<lambda>v. 1 / 2 ^ (length key - 1) * v + spec_offset_Y (butlast key)) ey])
       else ([map (\<lambda>v. 1 / 2 ^ (length key - 1) * v + spec_offset_X (butlast key)) px],
             [map (\<lambda>v. 1 / 2 ^ (length key - 1) * v + spec_offset_Y (butlast key)) py]))"
    unfolding resolved_def Let_def connector_geometry_def plain_geometry_def f
    by (simp only: option.sel fst_conv snd_conv)
  have m': "map_of d key =
      Some (if flag key = 2
       then ([map (\<lambda>v. 1 / 2 ^ (length key - 1) * v + spec_offset_X (butlast key)) sx,
              map (\<lambda>v. 1 / 2 ^ (length key - 1) * v + spec_offset_X (butlast key)) ex],
             [map (\<lambda>v. 1 / 2 ^ (length key - 1) * v + spec_offset_Y (butlast key)) sy,
              map (\<lambda>v. 1 / 2 ^ (length key - 1) * v + spec_offset_Y (butlast key)) ey])
       else ([map (\<lambda>v. 1 / 2 ^ (length key - 1) * v + spec_offset_X (butlast key)) px],
             [map (\<lambda>v. 1 / 2 ^ (length key - 1) * v + spec_offset_Y (butlast key)) py]))"
    using m unfolding r .
  show ?thesis
    using p s ps d(1) m f m' by blast
qed

theorem stored_geometry_resolved_witness:
  "\<exists>p s d px py. Pattern_init default_X default_Y = Inr p
       \<and> Steinhaus_init 3 default_X default_Y = Inr s
       \<and> pattern s = p \<and> lines s 2 = Some d
       \<and> pattern_X p 4 = Some px \<and> pattern_Y p 4 = Some py
       \<and> map_of d ''24'' = Some ([map (\<lambda>v. 1 / 2 * v + 1 / 2) px],
                                 [map (\<lambda>v. 1 / 2 * v + 1 / 2) py])"
proof -
  have h1: "''24'' \<noteq> []" by simp
  have h2: "set ''24'' \<subseteq> set ''1234''" by simp
  have h3: "int (length ''24'') \<le> 3 \<or> length ''24'' = 1" by simp
  have t: "flag ''24'' = 1" "digit (last ''24'') = 4"
    "spec_offset_X (butlast ''24'') = 1 / 2" "spec_offset_Y (butlast ''24'') = 1 / 2"
    "(2::real) ^ (length ''24'' - 1) = 2" "int (length ''24'') = 2"
    by (simp_all add: flag_def digit_def py_int_def spec_offset_X_def spec_offset_Y_def)
  obtain p s d px py sx sy ex ey where w:
    "Pattern_init default_X default_Y = Inr p" "Steinhaus_init 3 default_X default_Y = Inr s"
    "pattern s = p" "lines s 2 = Some d" "pattern_X p 4 = Some px" "pattern_Y p 4 = Some py"
    "map_of d ''24'' =
       Some (if (1::int) = 2
             then ([map (\<lambda>v. 1 / 2 * v + 1 / 2) sx, map (\<lambda>v. 1 / 2 * v + 1 / 2) ex],
                   [map (\<lambda>v. 1 / 2 * v + 1 / 2) sy, map (\<lambda>v. 1 / 2 * v + 1 / 2) ey])
             else ([map (\<lambda>v. 1 / 2 * v + 1 / 2) px], [map (\<lambda>v. 1 / 2 * v + 1 / 2) py]))"
    using stored_geometry_resolved [OF h1 h2 h3, of default_X default_Y] unfolding t by blast
  have "map_of d ''24'' = Some ([map (\<lambda>v. 1 / 2 * v + 1 / 2) px],
                               [map (\<lambda>v. 1 / 2 * v + 1 / 2) py])"
    using w(7) by simp
  then show ?thesis
    using w(1-6) by blast
qed

lemma str_of_digit:
  assumes "k \<in> {1, 2, 3, 4}"
  shows "str k \<in> addrs 1 \<and> resolved p (str k) = plain_geometry p k 1 (0, 0)"
  using assms unfolding addrs_1
  by (auto simp: str_digits resolved_level1 digit_def py_int_def)

lemma level_inv_plain1:
  assumes "level_inv p 1 d"
  shows "filter (\<lambda>g. length (fst g) \<noteq> 1 \<or> length (snd g) \<noteq> 1) (map snd d) = []"
proof -
  have "length (fst g) = 1 \<and> length (snd g) = 1" if "g \<in> set (map snd d)" for g
  proof -
    have "\<exists>key. (key, g) \<in> set d" using that by force
    then obtain key where "(key, g) \<in> set d" by blast
    then have k: "key \<in> addrs 1" "g = resolved p key"
      using level_inv_set [OF assms] by blast+
    obtain ch where ch: "key = [ch]" "ch \<in> set ''1234''"
      using k(1) unfolding addrs_1 by auto
    show ?thesis
      unfolding k(2) ch(1) resolved_level1 [OF ch(2)] plain_geometry_def by simp
  qed
  then show ?thesis by (auto simp: filter_empty_conv)
qed

text \<open>
  Claim C1. For an orientation id \<open>k\<close> in 1-4, \<open>get\<close> returns the two polylines
  connector-start and connector-end of orientation \<open>k\<close>, every coordinate
  multiplied by the one scale and translated by the one offset, exactly when \<open>k = 5 - idParent\<close> or \<open>nParent = 2\<close> and \<open>k = idParent\<close>,
  and the single plain polyline of orientation \<open>k\<close> otherwise. Level 1 of every
  curve has the four addresses 1-4, each stored with one plain polyline at
  scale 1 and offset 0, and no entry with two.
\<close>

theorem get_disambiguation:
  assumes "k \<in> {1, 2, 3, 4}"
  shows "\<exists>p px py sx sy ex ey s d.
           Pattern_init X Y = Inr p
           \<and> pattern_X p k = Some px \<and> pattern_Y p k = Some py
           \<and> patternS_X p k = Some sx \<and> patternS_Y p k = Some sy
           \<and> patternE_X p k = Some ex \<and> patternE_Y p k = Some ey
           \<and> get p k idParent lvl off nParent =
               Inr (if k = 5 - idParent \<or> (nParent = 2 \<and> k = idParent)
                    then ([map (\<lambda>v. 1 / pow2 (lvl - 1) * v + fst off) sx,
                           map (\<lambda>v. 1 / pow2 (lvl - 1) * v + fst off) ex],
                          [map (\<lambda>v. 1 / pow2 (lvl - 1) * v + snd off) sy,
                           map (\<lambda>v. 1 / pow2 (lvl - 1) * v + snd off) ey])
                    else ([map (\<lambda>v. 1 / pow2 (lvl - 1) * v + fst off) px],
                          [map (\<lambda>v. 1 / pow2 (lvl - 1) * v + snd off) py]))
           \<and> Steinhaus_init depth X Y = Inr s \<and> pattern s = p \<and> lines s 1 = Some d
           \<and> distinct (map fst d) \<and> set (map fst d) = {''1'', ''2'', ''3'', ''4''}
           \<and> map_of d (str k) = Some ([map (\<lambda>v. 1 * v + 0) px], [map (\<lambda>v. 1 * v + 0) py])
           \<and> filter (\<lambda>g. length (fst g) \<noteq> 1 \<or> length (snd g) \<noteq> 1) (map snd d) = []"
proof -
  obtain p s where p: "Pattern_init X Y = Inr p" and wf: "wf_pattern p"
    and s: "Steinhaus_init depth X Y = Inr s" and ps: "pattern s = p"
    and lv: "\<And>n. 1 \<le> n \<Longrightarrow> int n \<le> depth \<or> n = 1 \<Longrightarrow> \<exists>d. lines s (int n) = Some d \<and> level_inv p n d"
    by (rule Steinhaus_init_levels [of X Y depth]) blast
  obtain px py sx sy ex ey where f:
    "pattern_X p k = Some px" "pattern_Y p k = Some py" "patternS_X p k = Some sx"
    "patternS_Y p k = Some sy" "patternE_X p k = Some ex" "patternE_Y p k = Some ey"
    by (rule wf_pattern_lookup [OF wf assms])
  have g: "get p k idParent lvl off nParent =
               Inr (if k = 5 - idParent \<or> (nParent = 2 \<and> k = idParent)
                    then ([map (\<lambda>v. 1 / pow2 (lvl - 1) * v + fst off) sx,
                           map (\<lambda>v. 1 / pow2 (lvl - 1) * v + fst off) ex],
                          [map (\<lambda>v. 1 / pow2 (lvl - 1) * v + snd off) sy,
                           map (\<lambda>v. 1 / pow2 (lvl - 1) * v + snd off) ey])
                    else ([map (\<lambda>v. 1 / pow2 (lvl - 1) * v + fst off) px],
                          [map (\<lambda>v. 1 / pow2 (lvl - 1) * v + snd off) py]))"
    unfolding get_wf [OF wf assms] connector_geometry_def plain_geometry_def f by auto
  obtain d where d: "lines s 1 = Some d" "level_inv p 1 d"
    using lv [of 1] by auto
  have dist: "distinct (map fst d)" using d(2) unfolding level_inv_def by blast
  have keys: "set (map fst d) = {''1'', ''2'', ''3'', ''4''}"
    using level_inv_keys [OF d(2)] unfolding addrs_1 .
  have "map_of d (str k) = Some (resolved p (str k))"
    using d(2) str_of_digit [OF assms, of p] unfolding level_inv_def by simp
  then have m: "map_of d (str k) = Some ([map (\<lambda>v. 1 * v + 0) px], [map (\<lambda>v. 1 * v + 0) py])"
    using str_of_digit [OF assms, of p] unfolding plain_geometry_def f
    by (simp only: option.sel fst_conv snd_conv)
  show ?thesis
    using p f g s ps d(1) dist keys m level_inv_plain1 [OF d(2)] by blast
qed


theorem get_disambiguation_witness:
  "\<exists>p px py sx sy ex ey s d.
           Pattern_init default_X default_Y = Inr p
           \<and> pattern_X p 3 = Some px \<and> pattern_Y p 3 = Some py
           \<and> patternS_X p 3 = Some sx \<and> patternS_Y p 3 = Some sy
           \<and> patternE_X p 3 = Some ex \<and> patternE_Y p 3 = Some ey
           \<and> get p 3 2 2 (1 / 2, 1 / 2) 1 =
               Inr ([map (\<lambda>v. 1 / 2 * v + 1 / 2) sx, map (\<lambda>v. 1 / 2 * v + 1 / 2) ex],
                    [map (\<lambda>v. 1 / 2 * v + 1 / 2) sy, map (\<lambda>v. 1 / 2 * v + 1 / 2) ey])
           \<and> Steinhaus_init 1 default_X default_Y = Inr s \<and> pattern s = p \<and> lines s 1 = Some d
           \<and> distinct (map fst d) \<and> set (map fst d) = {''1'', ''2'', ''3'', ''4''}
           \<and> map_of d ''3'' = Some ([map (\<lambda>v. 1 * v + 0) px], [map (\<lambda>v. 1 * v + 0) py])
           \<and> filter (\<lambda>g. length (fst g) \<noteq> 1 \<or> length (snd g) \<noteq> 1) (map snd d) = []"
proof -
  have h: "(3::int) \<in> {1, 2, 3, 4}" by simp
  have t: "pow2 (2 - 1) = 2" "((3::int) = 5 - 2 \<or> ((1::int) = 2 \<and> (3::int) = 2)) = True"
    "str 3 = ''3''"
    by (simp_all add: pow2_def str_digits)
  show ?thesis
    using get_disambiguation [OF h, of default_X default_Y 2 2 "(1 / 2, 1 / 2)" 1 1]
    unfolding t if_True fst_conv snd_conv .
qed

lemma Steinhaus_init_shallow:
  assumes "depth < 2" "Pattern_init X Y = Inr p"
  shows "Steinhaus_init depth X Y =
     Inr \<lparr>level = depth, pattern = p,
          lines = [1 \<mapsto> [(''1'', plain_geometry p 1 1 (0, 0)), (''2'', plain_geometry p 2 1 (0, 0)),
                           (''3'', plain_geometry p 3 1 (0, 0)), (''4'', plain_geometry p 4 1 (0, 0))]]\<rparr>"
proof -
  have wf: "wf_pattern p" using assms(2) by (rule Pattern_init_wf_any)
  have u: "[2..depth] = []" using assms(1) by simp
  show ?thesis
    unfolding Steinhaus_init_def u
    by (simp add: assms(2) level1_resolved [OF wf] resolved_level1 digit_def py_int_def)
qed

text \<open>
  For the depths 0 and -3 the constructor returns a curve, with level 1 in it.
\<close>

theorem Steinhaus_init_depth_counterexample:
  "\<not> isl (Steinhaus_init 0 default_X default_Y)
     \<and> Steinhaus_init 0 default_X default_Y \<noteq> Inl InvalidLevelError
     \<and> addresses (Steinhaus_init 0 default_X default_Y) 1 = [''1'', ''2'', ''3'', ''4'']
     \<and> \<not> isl (Steinhaus_init (- 3) default_X default_Y)
     \<and> Steinhaus_init (- 3) default_X default_Y \<noteq> Inl InvalidLevelError
     \<and> addresses (Steinhaus_init (- 3) default_X default_Y) 1 = [''1'', ''2'', ''3'', ''4'']"
proof -
  obtain p where p: "Pattern_init default_X default_Y = Inr p"
    by (rule Pattern_init_wf)
  show ?thesis
    unfolding Steinhaus_init_shallow [OF _ p, of 0, simplified]
      Steinhaus_init_shallow [OF _ p, of "- 3", simplified]
    by (simp add: addresses_def)
qed

text \<open>
  Claim C5, as the code has it. For a requested depth below 1 the constructor
  raises nothing: \<open>range(2, level+1)\<close> is empty, and the curve holds level 1,
  the four plain root nodes, and no other level.
\<close>

theorem Steinhaus_init_depth_below_1:
  assumes "depth < 1"
  shows "\<exists>p s. Pattern_init X Y = Inr p \<and> Steinhaus_init depth X Y = Inr s
           \<and> level s = depth \<and> pattern s = p \<and> dom (lines s) = {1}
           \<and> lines s 1 =
               Some [(''1'', plain_geometry p 1 1 (0, 0)), (''2'', plain_geometry p 2 1 (0, 0)),
                     (''3'', plain_geometry p 3 1 (0, 0)), (''4'', plain_geometry p 4 1 (0, 0))]"
proof -
  obtain p where p: "Pattern_init X Y = Inr p"
    by (rule Pattern_init_wf)
  have d: "depth < 2" using assms by simp
  show ?thesis
    unfolding Steinhaus_init_shallow [OF d p] using p by simp
qed

theorem Steinhaus_init_depth_below_1_witness:
  "\<exists>p s. Pattern_init default_X default_Y = Inr p
           \<and> Steinhaus_init (- 2) default_X default_Y = Inr s
           \<and> level s = - 2 \<and> pattern s = p \<and> dom (lines s) = {1}
           \<and> lines s 1 =
               Some [(''1'', plain_geometry p 1 1 (0, 0)), (''2'', plain_geometry p 2 1 (0, 0)),
                     (''3'', plain_geometry p 3 1 (0, 0)), (''4'', plain_geometry p 4 1 (0, 0))]"
proof -
  have h: "(- 2 :: int) < 1" by simp
  show ?thesis
    by (rule Steinhaus_init_depth_below_1 [OF h])
qed

subsection \<open>Validation of the root pattern\<close>

text \<open>
  Claim C4, as the code has it. Neither \<open>Pattern.__init__\<close> nor
  \<open>Steinhaus.__init__\<close> checks the root pattern: both return for every pair of
  coordinate lists, whether they have fewer than 3 points or unequal lengths.
  The command-line entry alone rejects, and only lists of unequal length,
  with a bare Exception before the pattern is built; lists of equal length,
  however short, it accepts.
\<close>

theorem Pattern_init_no_validation:
  "(\<exists>p. Pattern_init X Y = Inr p)
     \<and> (\<exists>s. Steinhaus_init nLevel X Y = Inr s)
     \<and> (length X \<noteq> length Y \<longrightarrow> cli_main (Some X) (Some Y) nLevel = Inl PyException)
     \<and> (length X = length Y \<longrightarrow> (\<exists>s. cli_main (Some X) (Some Y) nLevel = Inr s))
     \<and> (length X = length Y \<longrightarrow> X \<noteq> [] \<longrightarrow>
           cli_main (Some X) (Some Y) nLevel = Steinhaus_init nLevel X Y)"
proof -
  obtain p where p: "Pattern_init X Y = Inr p"
    by (rule Pattern_init_cases [of X Y])
  obtain s where s: "Steinhaus_init nLevel X Y = Inr s"
    by (rule Steinhaus_init_levels [of X Y nLevel])
  obtain s0 where s0: "Steinhaus_init nLevel default_X default_Y = Inr s0"
    by (rule Steinhaus_init_levels [of default_X default_Y nLevel])
  have rej: "cli_main (Some X) (Some Y) nLevel = Inl PyException" if "length X \<noteq> length Y"
  proof -
    have "X \<noteq> [] \<or> Y \<noteq> []"
      using that by auto
    then show ?thesis
      using that unfolding cli_main_def absent_def by auto
  qed
  have same: "cli_main (Some X) (Some Y) nLevel = Steinhaus_init nLevel X Y"
    if "length X = length Y" "X \<noteq> []"
    using that unfolding cli_main_def absent_def by simp
  have dflt: "cli_main (Some X) (Some Y) nLevel = Steinhaus_init nLevel default_X default_Y"
    if "length X = length Y" "X = []"
    using that unfolding cli_main_def absent_def by (simp add: default_X_def default_Y_def)
  have acc: "\<exists>s. cli_main (Some X) (Some Y) nLevel = Inr s" if "length X = length Y"
  proof (cases "X = []")
    case True
    then show ?thesis using dflt [OF that] s0 by simp
  next
    case False
    then show ?thesis using same [OF that] s by simp
  qed
  show ?thesis
    using p s rej acc same by blast
qed

theorem Pattern_init_no_validation_witness:
  "(\<exists>p. Pattern_init [1] [2, 3] = Inr p)
     \<and> (\<exists>s. Steinhaus_init 6 [1] [2, 3] = Inr s)
     \<and> cli_main (Some [1]) (Some [2, 3]) 6 = Inl PyException
     \<and> (\<exists>p. Pattern_init [1, 2] [3, 4] = Inr p)
     \<and> (\<exists>s. Steinhaus_init 6 [1, 2] [3, 4] = Inr s)
     \<and> (\<exists>s. cli_main (Some [1, 2]) (Some [3, 4]) 6 = Inr s)
     \<and> cli_main (Some [1, 2]) (Some [3, 4]) 6 = Steinhaus_init 6 [1, 2] [3, 4]"
  using Pattern_init_no_validation [of "[1]" "[2, 3]" 6]
        Pattern_init_no_validation [of "[1, 2]" "[3, 4]" 6]
  by simp

end
